theory Spec2Isabelle
  imports Main "HOL-Library.Word" "HOL-Library.AList" "HOL-Library.List_Lexorder"
begin

section \<open>Data model of the hero plugin\<close>

text \<open>
  Bytes of the savefile are 8-bit words. A decoded hero name is a Python unicode string,
  modelled as its list of code points; such lists are compared lexicographically, as
  Python compares strings.
\<close>

type_synonym byte = "8 word"
type_synonym ustr = "nat list"

text \<open>
  A savefile version key is either Python's \<open>None\<close> or a string
  (\<open>self.savefile.version\<close>, \<open>x["name"]\<close> of a version plugin).
\<close>

type_synonym version_key = "string option"

datatype error = KeyError | AttributeError | PatchRangeError

text \<open>
  Class \<open>Hero\<close>: the attributes set by \<open>__init__\<close> that the operations below read or
  write, and the attributes \<open>artifacts\<close> and \<open>stats\<close> that subplugins add later
  (\<open>None\<close> while the attribute does not exist). Dictionaries are association lists in
  insertion order; an equipment slot holds an artifact name or Python's \<open>None\<close>.
\<close>

record hero =
  name :: ustr
  bytes :: "byte list"
  place :: nat
  span :: "nat \<times> nat"
  basestats :: "(string \<times> int) list"
  artifacts :: "(string \<times> string option) list option"
  stats :: "(string \<times> int) list option"

text \<open>The values a hero can be compared with: another hero, or any other object.\<close>

datatype pyobj = HeroObj hero | NoneObj | StrObj ustr | IntObj int

subsection \<open>\<open>Hero.__eq__\<close>\<close>

definition Hero_eq :: "hero \<Rightarrow> pyobj \<Rightarrow> bool" where
  "Hero_eq self other =
     (case other of
        HeroObj h \<Rightarrow> (name self, place self) = (name h, place h)
      | _ \<Rightarrow> False)"

subsection \<open>\<open>Hero.ensure_basestats\<close>\<close>

text \<open>
  The static table \<open>metadata.Store.get("artifact_stats")\<close> and the key list
  \<open>metadata.PrimaryAttributes\<close> are parameters \<open>STATS\<close> and \<open>PrimaryAttributes\<close>.
  \<open>STATS.get(item)\<close> is \<open>None\<close> for an empty slot and for an artifact without an entry.
\<close>

definition STATS_get :: "(string \<rightharpoonup> int list) \<Rightarrow> string option \<Rightarrow> int list option" where
  "STATS_get STATS item = (case item of None \<Rightarrow> None | Some a \<Rightarrow> STATS a)"

text \<open>Truth value of \<open>STATS.get(item)\<close>: \<open>None\<close> and the empty sequence are false.\<close>

definition truthy_bonus :: "int list option \<Rightarrow> bool" where
  "truthy_bonus r = (case r of None \<Rightarrow> False | Some b \<Rightarrow> b \<noteq> [])"

text \<open>\<open>[a + b for a, b in zip(diff, STATS[item])]\<close>\<close>

definition add_bonus :: "int list \<Rightarrow> int list \<Rightarrow> int list" where
  "add_bonus diff b = map (\<lambda>(x, y). x + y) (zip diff b)"

text \<open>The first loop, over the items that \<open>filter\<close> lets through; \<open>STATS[item]\<close> raises
  \<open>KeyError\<close> on a missing key.\<close>

fun sum_diff :: "(string \<rightharpoonup> int list) \<Rightarrow> string option list \<Rightarrow> int list \<Rightarrow> error + int list" where
  "sum_diff STATS [] diff = Inr diff"
| "sum_diff STATS (item # items) diff =
     (case STATS_get STATS item of
        None \<Rightarrow> Inl KeyError
      | Some b \<Rightarrow> sum_diff STATS items (add_bonus diff b))"

text \<open>The second loop: \<open>self.basestats[k] = self.stats[k] - v\<close> for each zipped pair.\<close>

fun set_basestats ::
  "(string \<times> int) list option \<Rightarrow> (string \<times> int) list \<Rightarrow> (string \<times> int) list
     \<Rightarrow> error + (string \<times> int) list" where
  "set_basestats st [] bs = Inr bs"
| "set_basestats st ((k, v) # kvs) bs =
     (case st of
        None \<Rightarrow> Inl AttributeError
      | Some d \<Rightarrow>
          (case map_of d k of
             None \<Rightarrow> Inl KeyError
           | Some x \<Rightarrow> set_basestats st kvs (AList.update k (x - v) bs)))"

definition ensure_basestats ::
  "(string \<rightharpoonup> int list) \<Rightarrow> string list \<Rightarrow> bool \<Rightarrow> hero \<Rightarrow> error + hero" where
  "ensure_basestats STATS PrimaryAttributes clear self =
     (let self1 = (if clear then self\<lparr>basestats := []\<rparr> else self) in
      if basestats self1 \<noteq> [] \<or> artifacts self1 = None then Inr self1
      else
        (case artifacts self1 of
           None \<Rightarrow> Inr self1
         | Some arts \<Rightarrow>
             (case sum_diff STATS
                     (filter (\<lambda>item. truthy_bonus (STATS_get STATS item)) (map snd arts))
                     (replicate (length PrimaryAttributes) 0) of
                Inl e \<Rightarrow> Inl e
              | Inr diff \<Rightarrow>
                  (case set_basestats (stats self1) (zip PrimaryAttributes diff)
                          (basestats self1) of
                     Inl e \<Rightarrow> Inl e
                   | Inr bs \<Rightarrow> Inr (self1\<lparr>basestats := bs\<rparr>)))))"

text \<open>
  The sum of the bonuses for the attribute at index \<open>i\<close> over the equipped artifacts that
  have an entry in the table.
\<close>

definition bonus_sum :: "(string \<rightharpoonup> int list) \<Rightarrow> string option list \<Rightarrow> nat \<Rightarrow> int" where
  "bonus_sum STATS items i =
     (\<Sum>item\<leftarrow>items. case STATS_get STATS item of None \<Rightarrow> 0 | Some b \<Rightarrow> b ! i)"

section \<open>Recognising hero records\<close>

subsection \<open>The structural pattern \<open>RGX_HERO\<close>\<close>

text \<open>
  A match object of \<open>re.search\<close>: \<open>m.span()\<close>, relative to the searched bytes, and the
  captures \<open>m.group("name")\<close> and \<open>m.group("artifacts")\<close>. A compiled pattern is modelled
  by its search function, \<open>None\<close> when nothing matches.
\<close>

record rmatch =
  m_start :: nat
  m_end :: nat
  m_name :: "byte list"
  m_artifacts :: "byte list"

type_synonym regex = "byte list \<Rightarrow> rmatch option"

text \<open>\<open>[^\x00-\x20,\xF0-\xFF]\<close>, the first byte of the name.\<close>

definition name_first :: "byte \<Rightarrow> bool" where
  "name_first b = (\<not> b \<le> 0x20 \<and> b \<noteq> 0x2C \<and> \<not> 0xF0 \<le> b)"

text \<open>
  One worn-equipment slot of 8 bytes:
  \<open>(\xFF{4} .{4}) | (.\x00{3} (\x00{4} | \xFF{4})) | (.\x00{3}.{2}\x00{2})\<close>.
\<close>

fun equip_slot :: "byte list \<Rightarrow> bool" where
  "equip_slot [a, b, c, d, e, f, g, h] =
     ((a = 0xFF \<and> b = 0xFF \<and> c = 0xFF \<and> d = 0xFF)
      \<or> (b = 0 \<and> c = 0 \<and> d = 0
          \<and> ((e = 0 \<and> f = 0 \<and> g = 0 \<and> h = 0) \<or> (e = 0xFF \<and> f = 0xFF \<and> g = 0xFF \<and> h = 0xFF)))
      \<or> (b = 0 \<and> c = 0 \<and> d = 0 \<and> g = 0 \<and> h = 0))"
| "equip_slot _ = False"

text \<open>One backpack slot: \<open>((.\x00{3}) | \xFF{4}) (\x00{4} | \xFF{4})\<close>.\<close>

fun pack_slot :: "byte list \<Rightarrow> bool" where
  "pack_slot [a, b, c, d, e, f, g, h] =
     (((b = 0 \<and> c = 0 \<and> d = 0) \<or> (a = 0xFF \<and> b = 0xFF \<and> c = 0xFF \<and> d = 0xFF))
      \<and> ((e = 0 \<and> f = 0 \<and> g = 0 \<and> h = 0) \<or> (e = 0xFF \<and> f = 0xFF \<and> g = 0xFF \<and> h = 0xFF)))"
| "pack_slot _ = False"

text \<open>\<open>n\<close> consecutive 8-byte slots, each matching \<open>P\<close>.\<close>

primrec slots :: "(byte list \<Rightarrow> bool) \<Rightarrow> nat \<Rightarrow> byte list \<Rightarrow> bool" where
  "slots P 0 s = True"
| "slots P (Suc n) s = (P (take 8 s) \<and> slots P n (drop 8 s))"

text \<open>
  \<open>RGX_HERO\<close> matches at the start of \<open>s\<close>. Every alternative of the pattern has a fixed
  width, so a match is 1025 bytes long and is decided field by field at the offsets the
  pattern's comments give; \<open>.\<close> matches every byte (\<open>re.DOTALL\<close>). The constrained fields:
  \<^item> 012-015 skill slots used, \<open>[\x00-\x1C][\x00]{3}\<close>;
  \<^item> 138-150 the name, \<open>[^\x00-\x20,\xF0-\xFF].{11}\x00\<close>;
  \<^item> 151-178 skill levels, \<open>[\x00-\x03]{28}\<close>, and 179-206 skill slots, \<open>[\x00-\x1C]{28}\<close>;
  \<^item> 211-280 and 281-350 the spells, \<open>[\x00-\x01]{70}\<close> each;
  \<^item> 351-502 the 19 slots of equipment worn, and 503-1014 the 64 slots of the backpack;
  \<^item> 1016-1024 the slots taken by combination artifacts,
    \<open>[\x00-\x01]{6}[\x00-\x02][\x00-\x01][\x00-\x05]\<close>.
\<close>

definition hero_window :: "byte list \<Rightarrow> bool" where
  "hero_window s =
     (1025 \<le> length s
      \<and> s ! 12 \<le> 0x1C \<and> list_all (\<lambda>b. b = 0) (take 3 (drop 13 s))
      \<and> name_first (s ! 138) \<and> s ! 150 = 0
      \<and> list_all (\<lambda>b. b \<le> 3) (take 28 (drop 151 s))
      \<and> list_all (\<lambda>b. b \<le> 0x1C) (take 28 (drop 179 s))
      \<and> list_all (\<lambda>b. b \<le> 1) (take 70 (drop 211 s))
      \<and> list_all (\<lambda>b. b \<le> 1) (take 70 (drop 281 s))
      \<and> slots equip_slot 19 (drop 351 s)
      \<and> slots pack_slot 64 (drop 503 s)
      \<and> list_all (\<lambda>b. b \<le> 1) (take 6 (drop 1016 s))
      \<and> s ! 1022 \<le> 2 \<and> s ! 1023 \<le> 1 \<and> s ! 1024 \<le> 5)"

text \<open>The leftmost offset at which \<open>P\<close> holds of the rest of the bytes, counting from \<open>i\<close>.\<close>

fun leftmost :: "(byte list \<Rightarrow> bool) \<Rightarrow> nat \<Rightarrow> byte list \<Rightarrow> nat option" where
  "leftmost P i [] = (if P [] then Some i else None)"
| "leftmost P i (b # s) = (if P (b # s) then Some i else leftmost P (Suc i) s)"

text \<open>\<open>re.search(RGX_HERO, s)\<close> with the two named captures.\<close>

definition RGX_HERO :: regex where
  "RGX_HERO s =
     (case leftmost hero_window 0 s of
        None \<Rightarrow> None
      | Some i \<Rightarrow>
          Some \<lparr>m_start = i, m_end = i + 1025,
                m_name = take 13 (drop (i + 138) s),
                m_artifacts = take 152 (drop (i + 351) s)\<rparr>)"

subsection \<open>Secondary validation\<close>

text \<open>\<open>[^\x00-\x19,\xF0-\xFF]\<close>, the bytes \<open>rgx_strip\<close> lets into a name.\<close>

definition strip_allowed :: "byte \<Rightarrow> bool" where
  "strip_allowed b = (\<not> b \<le> 0x19 \<and> b \<noteq> 0x2C \<and> \<not> 0xF0 \<le> b)"

text \<open>
  \<open>rgx_strip.match(s)\<close> for \<open>^([^\x00-\x19,\xF0-\xFF]+)\x00+$\<close>, giving group 1: the longest
  run of allowed bytes, then one or more NULs up to the end (\<open>$\<close> also matches before a
  final newline).
\<close>

definition rgx_strip :: "byte list \<Rightarrow> byte list option" where
  "rgx_strip s =
     (let a = takeWhile strip_allowed s;
          r = dropWhile strip_allowed s;
          z = dropWhile (\<lambda>b. b = 0) r
      in if a \<noteq> [] \<and> z \<noteq> r \<and> (z = [] \<or> z = [0x0A]) then Some a else None)"

text \<open>
  \<open>rgx_nulls.match(s)\<close> for \<open>^(\x00+)|(\x00{4}\xFF{4})+$\<close>. The alternation binds weakest:
  the first alternative is \<open>^(\x00+)\<close>, the second \<open>(\x00{4}\xFF{4})+$\<close>.
\<close>

definition nulls_alt1 :: "byte list \<Rightarrow> bool" where
  "nulls_alt1 s = (case s of [] \<Rightarrow> False | b # _ \<Rightarrow> b = 0)"

fun strip_units :: "byte list \<Rightarrow> byte list" where
  "strip_units (a # b # c # d # e # f # g # h # s) =
     (if a = 0 \<and> b = 0 \<and> c = 0 \<and> d = 0 \<and> e = 0xFF \<and> f = 0xFF \<and> g = 0xFF \<and> h = 0xFF
      then strip_units s else a # b # c # d # e # f # g # h # s)"
| "strip_units s = s"

definition nulls_alt2 :: "byte list \<Rightarrow> bool" where
  "nulls_alt2 s = (let z = strip_units s in z \<noteq> s \<and> (z = [] \<or> z = [0x0A]))"

definition rgx_nulls :: "byte list \<Rightarrow> bool" where
  "rgx_nulls s = (nulls_alt1 s \<or> nulls_alt2 s)"

text \<open>The test of \<open>parse\<close> that turns a match into a hero.\<close>

definition accepted :: "rmatch \<Rightarrow> bool" where
  "accepted m = (rgx_strip (m_name m) \<noteq> None \<and> \<not> rgx_nulls (m_artifacts m))"

subsection \<open>One detection pass\<close>

text \<open>
  The body of the inner loop of \<open>parse\<close> for a match \<open>m\<close> found in \<open>raw[pos:]\<close>: the next
  \<open>pos\<close> and the list \<open>vresult\<close>. \<open>util.to_unicode\<close> is a parameter.
\<close>

definition scan_step ::
  "(byte list \<Rightarrow> ustr) \<Rightarrow> byte list \<Rightarrow> nat \<Rightarrow> hero list \<Rightarrow> rmatch \<Rightarrow> nat \<times> hero list" where
  "scan_step to_unicode raw pos vresult m =
     (case rgx_strip (m_name m) of
        None \<Rightarrow> (pos + m_start m + 1, vresult)
      | Some nm \<Rightarrow>
          if \<not> rgx_nulls (m_artifacts m)
          then (pos + m_end m,
                vresult @
                [\<lparr>name = to_unicode nm,
                  bytes = take (m_end m - m_start m) (drop (pos + m_start m) raw),
                  place = length vresult,
                  span = (m_start m + pos, m_end m + pos),
                  basestats = [], artifacts = None, stats = None\<rparr>])
          else (pos + m_start m + 1, vresult))"

text \<open>
  The inner loop \<open>while m\<close>. It runs for ever on a pattern that matches the empty byte
  string, so its result is optional: \<open>None\<close> stands for not returning.
\<close>

partial_function (option) scan ::
  "(byte list \<Rightarrow> ustr) \<Rightarrow> regex \<Rightarrow> byte list \<Rightarrow> nat \<Rightarrow> hero list \<Rightarrow> hero list option" where
  "scan to_unicode RGX raw pos vresult =
     (case RGX (drop pos raw) of
        None \<Rightarrow> Some vresult
      | Some m \<Rightarrow>
          (case scan_step to_unicode raw pos vresult m of
             (pos', vresult') \<Rightarrow> scan to_unicode RGX raw pos' vresult'))"

subsection \<open>\<open>HeroPlugin.parse\<close>\<close>

text \<open>
  The savefile and the plugin, as far as \<open>parse\<close> and \<open>patch\<close> touch them: the byte buffer,
  the recorded version, the list \<open>_heroes\<close>, and the messages handed to \<open>guibase.status\<close>
  (log lines are not modelled).
\<close>

record savefile =
  raw :: "byte list"
  version :: version_key

record HeroPlugin =
  savefile :: savefile
  heroes :: "hero list"
  status :: "string list"

text \<open>
  What \<open>parse\<close> takes from outside this file: \<open>util.to_unicode\<close>, \<open>str.lower\<close>, the names
  of \<open>plugins.version.PLUGINS\<close> (\<open>None\<close> without a version plugin module), and
  \<open>plugins.adapt(self, "regex", _)\<close> as a function of the version set on the savefile.
\<close>

record env =
  to_unicode :: "byte list \<Rightarrow> ustr"
  str_lower :: "ustr \<Rightarrow> ustr"
  version_plugins :: "string list option"
  adapt_regex :: "version_key \<Rightarrow> regex \<Rightarrow> regex"

text \<open>Python's truth value of a version key: \<open>None\<close> and the empty string are false.\<close>

definition truthy :: "version_key \<Rightarrow> bool" where
  "truthy v = (case v of None \<Rightarrow> False | Some n \<Rightarrow> n \<noteq> [])"

text \<open>The list \<open>versions\<close>, and so \<open>all_versions\<close>, before the loop.\<close>

definition candidate_versions :: "env \<Rightarrow> bool \<Rightarrow> version_key \<Rightarrow> version_key list" where
  "candidate_versions E detect_version ver0 =
     (let versions =
            (if detect_version
             then (case version_plugins E of None \<Rightarrow> [] | Some names \<Rightarrow> map Some names)
             else [])
      in if versions = [] then [ver0] else versions)"

text \<open>
  The loop \<open>while versions\<close>: \<open>versions.pop()\<close> takes the last element;
  \<open>version_results.setdefault(ver, [])\<close> is the list already stored under \<open>ver\<close>, or a new
  empty one, and the pass appends to it.
\<close>

function versions_loop ::
  "env \<Rightarrow> byte list \<Rightarrow> version_key list \<Rightarrow> (version_key \<times> hero list) list
     \<Rightarrow> (version_key \<times> hero list) list option" where
  "versions_loop E buf versions version_results =
     (if versions = [] then Some version_results
      else
        (let ver = last versions;
             RGX = adapt_regex E ver RGX_HERO;
             vresult = (case map_of version_results ver of None \<Rightarrow> [] | Some l \<Rightarrow> l)
         in case scan (to_unicode E) RGX buf 10000 vresult of
              None \<Rightarrow> None
            | Some vresult' \<Rightarrow>
                versions_loop E buf (butlast versions)
                  (AList.update ver vresult' version_results)))"
  by pat_completeness auto
termination
  by (relation "measure (\<lambda>(E, buf, versions, version_results). length versions)") auto

declare versions_loop.simps [simp del]

text \<open>
  \<open>max(vcounts.values())\<close> on counts. It is evaluated only after \<open>vcounts[k]\<close> has
  succeeded, so never on an empty dictionary.
\<close>

definition py_max :: "nat list \<Rightarrow> nat" where
  "py_max xs = fold max xs 0"

text \<open>\<open>[k for k in all_versions if vcounts[k] == max(vcounts.values())]\<close>\<close>

fun maxcount_vers :: "version_key list \<Rightarrow> (version_key \<times> nat) list \<Rightarrow> error + version_key list" where
  "maxcount_vers [] vcounts = Inr []"
| "maxcount_vers (k # ks) vcounts =
     (case map_of vcounts k of
        None \<Rightarrow> Inl KeyError
      | Some c \<Rightarrow>
          (case maxcount_vers ks vcounts of
             Inl e \<Rightarrow> Inl e
           | Inr r \<Rightarrow> Inr (if c = py_max (map snd vcounts) then k # r else r)))"

definition parse :: "env \<Rightarrow> bool \<Rightarrow> HeroPlugin \<Rightarrow> (error + HeroPlugin) option" where
  "parse E detect_version self =
     (let ver0 = version (savefile self);
          all_versions = candidate_versions E detect_version ver0
      in case versions_loop E (raw (savefile self)) all_versions [] of
           None \<Rightarrow> None
         | Some version_results \<Rightarrow>
             Some
               (let vcounts = map (\<lambda>(k, v). (k, length v)) version_results
                in case maxcount_vers all_versions vcounts of
                     Inl e \<Rightarrow> Inl e
                   | Inr maxcount \<Rightarrow>
                       (let ver = (if maxcount \<noteq> [] then last maxcount else None)
                        in if truthy ver
                           then (case map_of version_results ver of
                                   None \<Rightarrow> Inl KeyError
                                 | Some found \<Rightarrow>
                                     Inr (self\<lparr>savefile := (savefile self)\<lparr>version := ver\<rparr>,
                                               heroes := sort_key (\<lambda>x. str_lower E (name x)) found\<rparr>))
                           else Inr (self\<lparr>savefile := (savefile self)\<lparr>version := ver0\<rparr>,
                                          heroes := [],
                                          status := status self @ [''No heroes identified'']\<rparr>))))"

subsection \<open>\<open>HeroPlugin.patch\<close>\<close>

text \<open>
  Modelled from the spec: \<open>metadata.Savefile.patch\<close>, which is not part of the sources at
  hand. Sections 3, 4.5 and 7 of the specification: the bytes of the record are spliced
  into the buffer at the original span, producing an updated buffer; a byte window whose
  length is not the width of the span is a \<open>PatchRangeError\<close>, the patch is rejected and
  the buffer stays as it was.
\<close>

definition Savefile_patch :: "savefile \<Rightarrow> byte list \<Rightarrow> nat \<times> nat \<Rightarrow> error + savefile" where
  "Savefile_patch sf bs sp =
     (if length bs \<noteq> snd sp - fst sp then Inl PatchRangeError
      else Inr (sf\<lparr>raw := take (fst sp) (raw sf) @ bs @ drop (snd sp) (raw sf)\<rparr>))"

text \<open>The buffer after a patch attempt: the old one when the patch was rejected.\<close>

definition buffer_after :: "savefile \<Rightarrow> error + savefile \<Rightarrow> byte list" where
  "buffer_after sf r = (case r of Inl e \<Rightarrow> raw sf | Inr sf' \<Rightarrow> raw sf')"

text \<open>
  \<open>HeroPlugin.patch\<close> for the current hero: every subplugin with a callable \<open>serialize\<close>
  (\<open>Some\<close>) replaces the hero's bytes, then the savefile is patched at the hero's span.
  The YAML snapshot and the page event that follow do not touch the buffer and are left
  out.
\<close>

definition serialize_all :: "(hero \<Rightarrow> byte list) option list \<Rightarrow> hero \<Rightarrow> hero" where
  "serialize_all plugins h =
     fold (\<lambda>p h. case p of None \<Rightarrow> h | Some serialize \<Rightarrow> h\<lparr>bytes := serialize h\<rparr>) plugins h"

definition patch ::
  "(hero \<Rightarrow> byte list) option list \<Rightarrow> hero \<Rightarrow> savefile \<Rightarrow> hero \<times> (error + savefile)" where
  "patch plugins h sf =
     (let h' = serialize_all plugins h
      in (h', Savefile_patch sf (bytes h') (span h')))"

section \<open>Vocabulary of the properties\<close>

text \<open>
  What every result of \<open>re.search\<close> satisfies, whatever the pattern: the span lies inside
  the searched bytes and a capture is a part of the match.
\<close>

definition wf_regex :: "regex \<Rightarrow> bool" where
  "wf_regex RGX =
     (\<forall>s m. RGX s = Some m \<longrightarrow>
        m_start m \<le> m_end m \<and> m_end m \<le> length s \<and> length (m_name m) \<le> m_end m - m_start m)"

text \<open>
  Spans that follow one another without overlap, none of them empty.
\<close>

definition disjoint_increasing :: "hero list \<Rightarrow> bool" where
  "disjoint_increasing hs =
     (sorted_wrt (\<lambda>h h'. snd (span h) \<le> fst (span h')) hs
      \<and> list_all (\<lambda>h. fst (span h) < snd (span h)) hs)"

text \<open>
  A name capture in the shape the name check is meant for: one or more bytes of the class
  \<open>[^\x00-\x19,\xF0-\xFF]\<close>, then one or more NUL bytes up to the end of the capture.
\<close>

definition name_padded :: "byte list \<Rightarrow> bool" where
  "name_padded s =
     (let a = takeWhile strip_allowed s; z = dropWhile strip_allowed s
      in a \<noteq> [] \<and> z \<noteq> [] \<and> list_all (\<lambda>b. b = 0) z)"

text \<open>
  Two readings of an equipment table made of empty slots only: every slot is a blank spot
  of the pattern's comment (\<open>FF FF FF FF\<close> and four more bytes), or every byte is NUL.
\<close>

definition blank_equip :: "byte list \<Rightarrow> bool" where
  "blank_equip x = (take 4 x = [0xFF, 0xFF, 0xFF, 0xFF])"

definition all_blank :: "byte list \<Rightarrow> bool" where
  "all_blank art = slots blank_equip 19 art"

definition all_nul :: "byte list \<Rightarrow> bool" where
  "all_nul art = list_all (\<lambda>b. b = 0) art"

text \<open>
  The order in which \<open>versions.pop()\<close> visits the candidates, the number of heroes the
  pass of one candidate yields, and the candidate that a tie-break towards the last
  maximum met in that order would choose.
\<close>

definition traversal :: "version_key list \<Rightarrow> version_key list" where
  "traversal all_versions = rev all_versions"

definition pass_count :: "env \<Rightarrow> byte list \<Rightarrow> version_key \<Rightarrow> nat" where
  "pass_count E buf k =
     (case scan (to_unicode E) (adapt_regex E k RGX_HERO) buf 10000 [] of
        None \<Rightarrow> 0
      | Some found \<Rightarrow> length found)"

definition last_max_in_traversal :: "(version_key \<Rightarrow> nat) \<Rightarrow> version_key list \<Rightarrow> version_key" where
  "last_max_in_traversal count all_versions =
     last (filter (\<lambda>k. count k = py_max (map count all_versions)) (traversal all_versions))"

section \<open>Concrete inputs\<close>

text \<open>
  Instances of the parameters: a byte-per-character decoding for \<open>util.to_unicode\<close>, and
  \<open>str.lower\<close> on ASCII letters. Both agree with Python on the ASCII names used below.
\<close>

definition latin1 :: "byte list \<Rightarrow> ustr" where
  "latin1 bs = map unat bs"

definition ascii_lower :: "ustr \<Rightarrow> ustr" where
  "ascii_lower s = map (\<lambda>c. if 65 \<le> c \<and> c \<le> 90 then c + 32 else c) s"

text \<open>
  Equipment slots, equipment tables and names, and a 1025-byte record around a name and
  an equipment table: two skills, no creatures, an empty backpack.
\<close>

definition blank_slot :: "byte list" where
  "blank_slot = [0xFF, 0xFF, 0xFF, 0xFF, 0, 0, 0, 0]"

definition free_pack_slot :: "byte list" where
  "free_pack_slot = [0xFF, 0xFF, 0xFF, 0xFF, 0xFF, 0xFF, 0xFF, 0xFF]"

definition axe_slot :: "byte list" where
  "axe_slot = [0x23, 0, 0, 0, 0xFF, 0xFF, 0xFF, 0xFF]"

definition nul_slot :: "byte list" where
  "nul_slot = [0, 0, 0, 0, 0xFF, 0xFF, 0xFF, 0xFF]"

definition worn :: "byte list" where
  "worn = concat (blank_slot # axe_slot # replicate 17 blank_slot)"

definition unequipped :: "byte list" where
  "unequipped = concat (replicate 19 blank_slot)"

definition nul_helm :: "byte list" where
  "nul_helm = concat (nul_slot # replicate 18 axe_slot)"

definition name_Zed :: "byte list" where
  "name_Zed = [0x5A, 0x65, 0x64] @ replicate 10 0"

definition name_adam :: "byte list" where
  "name_adam = [0x61, 0x64, 0x61, 0x6D] @ replicate 9 0"

definition example_window :: "byte list \<Rightarrow> byte list \<Rightarrow> byte list" where
  "example_window nm equipment =
     replicate 12 0 @ [2, 0, 0, 0] @ replicate 122 0 @ nm
     @ replicate 56 0 @ [10, 4, 1, 2] @ replicate 140 0
     @ equipment @ concat (replicate 64 free_pack_slot) @ replicate 10 0"

text \<open>
  A savefile of 10000 header bytes followed by two records, the heroes a pass finds in it,
  an environment with two version plugins that leave the pattern as it is, and a plugin
  on a given buffer before its first parse.
\<close>

definition padding :: "byte list" where
  "padding = replicate 10000 0"

definition two_heroes :: "byte list" where
  "two_heroes = padding @ example_window name_Zed worn @ example_window name_adam worn"

text \<open>
  A savefile of 10000 header bytes followed by one record whose equipment starts with a
  NUL byte, which the pattern matches and the validation rejects.
\<close>

definition one_rejected :: "byte list" where
  "one_rejected = padding @ example_window name_adam nul_helm"

definition hero_Zed :: hero where
  "hero_Zed = \<lparr>name = [90, 101, 100], bytes = example_window name_Zed worn, place = 0,
               span = (10000, 11025), basestats = [], artifacts = None, stats = None\<rparr>"

definition hero_adam :: hero where
  "hero_adam = \<lparr>name = [97, 100, 97, 109], bytes = example_window name_adam worn, place = 1,
                span = (11025, 12050), basestats = [], artifacts = None, stats = None\<rparr>"

definition E_plain :: env where
  "E_plain = \<lparr>to_unicode = latin1, str_lower = ascii_lower,
              version_plugins = Some [''version1'', ''version2''],
              adapt_regex = (\<lambda>ver rgx. rgx)\<rparr>"

definition plugin_on :: "byte list \<Rightarrow> HeroPlugin" where
  "plugin_on buf = \<lparr>savefile = \<lparr>raw = buf, version = None\<rparr>, heroes = [], status = []\<rparr>"

text \<open>
  A buffer of 2000 bytes with a record at \<open>[500, 1525)\<close>, and subplugins of which one
  serialises the hero to new content of the same width.
\<close>

definition old_buffer :: savefile where
  "old_buffer = \<lparr>raw = replicate 2000 0x11, version = None\<rparr>"

definition edited_hero :: hero where
  "edited_hero = \<lparr>name = [72], bytes = replicate 1025 0x22, place = 0, span = (500, 1525),
                  basestats = [], artifacts = None, stats = None\<rparr>"

definition example_plugins :: "(hero \<Rightarrow> byte list) option list" where
  "example_plugins = [None, Some (\<lambda>h. replicate 1025 0x33)]"

text \<open>
  Primary attributes, a bonus table and a hero with an attack of 10 who wears an artifact
  that grants +3 attack.
\<close>

definition PA0 :: "string list" where
  "PA0 = [''attack'', ''defense'', ''power'', ''knowledge'']"

definition STATS0 :: "string \<rightharpoonup> int list" where
  "STATS0 = [''Centaur Axe'' \<mapsto> [3, 0, 0, 0], ''Shield of the Dwarven Lords'' \<mapsto> [0, 2, 0, 0]]"

definition hero0 :: hero where
  "hero0 = \<lparr> name = [72, 101, 114, 111], bytes = [], place = 0, span = (10000, 11025),
             basestats = [],
             artifacts = Some [(''helm'', None), (''weapon'', Some ''Centaur Axe''),
                               (''side1'', Some ''Pendant of Life'')],
             stats = Some [(''attack'', 10), (''defense'', 4), (''power'', 1), (''knowledge'', 2)] \<rparr>"

section \<open>Base statistics\<close>

lemma add_bonus_length: "length b = length diff \<Longrightarrow> length (add_bonus diff b) = length diff"
  by (simp add: add_bonus_def)

lemma add_bonus_nth: "length b = length diff \<Longrightarrow> i < length diff \<Longrightarrow> add_bonus diff b ! i = diff ! i + b ! i"
  by (simp add: add_bonus_def)

lemma sum_diff_total:
  assumes "\<forall>item\<in>set items. \<exists>b. STATS_get STATS item = Some b \<and> length b = length diff"
  shows "\<exists>d. sum_diff STATS items diff = Inr d \<and> length d = length diff
           \<and> (\<forall>i<length diff. d ! i = diff ! i + bonus_sum STATS items i)"
  using assms
proof (induction items arbitrary: diff)
  case Nil
  then show ?case by (simp add: bonus_sum_def)
next
  case (Cons item items)
  from Cons.prems obtain b where b: "STATS_get STATS item = Some b" "length b = length diff"
    by auto
  have len: "length (add_bonus diff b) = length diff"
    using b by (simp add: add_bonus_length)
  have "\<forall>it\<in>set items. \<exists>b'. STATS_get STATS it = Some b' \<and> length b' = length (add_bonus diff b)"
    using Cons.prems len by simp
  from Cons.IH [OF this] obtain d where d: "sum_diff STATS items (add_bonus diff b) = Inr d"
    "length d = length diff"
    "\<forall>i<length diff. d ! i = add_bonus diff b ! i + bonus_sum STATS items i"
    using len by auto
  have "\<forall>i<length diff. d ! i = diff ! i + bonus_sum STATS (item # items) i"
    using d(3) b by (simp add: add_bonus_nth bonus_sum_def)
  with d b show ?case by simp
qed

lemma bonus_sum_truthy:
  assumes "\<forall>item\<in>set items. \<forall>b. STATS_get STATS item = Some b \<longrightarrow> b \<noteq> []"
  shows "bonus_sum STATS (filter (\<lambda>item. truthy_bonus (STATS_get STATS item)) items) i
           = bonus_sum STATS items i"
  using assms by (induction items) (auto simp: bonus_sum_def truthy_bonus_def split: option.splits)

lemma set_basestats_total:
  assumes "distinct (map fst kvs)" "\<forall>k\<in>set (map fst kvs). k \<in> dom (map_of d)"
  shows "\<exists>bs'. set_basestats (Some d) kvs bs = Inr bs'
           \<and> (\<forall>k. map_of bs' k = (case map_of kvs k of None \<Rightarrow> map_of bs k
                                    | Some v \<Rightarrow> Some (the (map_of d k) - v)))"
  using assms
proof (induction kvs arbitrary: bs)
  case Nil
  then show ?case by simp
next
  case (Cons kv kvs)
  obtain k v where kv: "kv = (k, v)" by (cases kv)
  from Cons.prems kv obtain x where x: "map_of d k = Some x" by auto
  have k_fresh: "map_of kvs k = None"
    using Cons.prems(1) kv by (simp add: map_of_eq_None_iff)
  from Cons.prems have "distinct (map fst kvs)" "\<forall>k\<in>set (map fst kvs). k \<in> dom (map_of d)"
    by auto
  from Cons.IH [OF this, of "AList.update k (x - v) bs"]
  obtain bs' where bs': "set_basestats (Some d) kvs (AList.update k (x - v) bs) = Inr bs'"
    "\<forall>k'. map_of bs' k' = (case map_of kvs k' of None \<Rightarrow> map_of (AList.update k (x - v) bs) k'
                                    | Some v' \<Rightarrow> Some (the (map_of d k') - v'))"
    by blast
  have "\<forall>k'. map_of bs' k' = (case map_of (kv # kvs) k' of None \<Rightarrow> map_of bs k'
                                    | Some v' \<Rightarrow> Some (the (map_of d k') - v'))"
    using bs'(2) k_fresh x kv by (auto simp: update_conv' split: option.splits)
  with bs'(1) x kv show ?case by simp
qed

section \<open>Secondary validation\<close>

text \<open>
  Every byte string the second alternative of \<open>rgx_nulls\<close> matches starts with NUL, so the
  first alternative matches it as well: \<open>rgx_nulls\<close> tests the first byte only.
\<close>

lemma nulls_alt2_alt1: "nulls_alt2 s \<Longrightarrow> nulls_alt1 s"
  by (cases s rule: strip_units.cases)
     (auto simp: nulls_alt2_def nulls_alt1_def Let_def split: if_splits)

lemma rgx_nulls_first_byte: "rgx_nulls s = nulls_alt1 s"
  using nulls_alt2_alt1 by (auto simp: rgx_nulls_def)

lemma rgx_nulls_iff: "rgx_nulls s \<longleftrightarrow> s \<noteq> [] \<and> hd s = 0"
  by (cases s) (simp_all add: rgx_nulls_first_byte nulls_alt1_def)

lemma dropWhile_shorter: "dropWhile P xs \<noteq> xs \<longleftrightarrow> xs \<noteq> [] \<and> P (hd xs)"
proof (cases xs)
  case Nil
  then show ?thesis by simp
next
  case (Cons x t)
  have "length (dropWhile P t) \<le> length t"
    by (rule length_dropWhile_le)
  then have "dropWhile P t \<noteq> x # t"
    by auto
  with Cons show ?thesis by simp
qed

lemma rgx_strip_Some:
  assumes "rgx_strip s = Some a"
  shows "a = takeWhile strip_allowed s" "a \<noteq> []" "length a < length s"
    "list_all strip_allowed a" "drop (length a) s \<noteq> []" "hd (drop (length a) s) = 0"
proof -
  let ?r = "dropWhile strip_allowed s"
  from assms have a: "a = takeWhile strip_allowed s" and ne: "a \<noteq> []"
    and z: "dropWhile (\<lambda>b. b = 0) ?r \<noteq> ?r"
    by (auto simp: rgx_strip_def Let_def split: if_splits)
  have r: "drop (length a) s = ?r"
    using a by (simp add: dropWhile_eq_drop)
  from z have "?r \<noteq> []" "hd ?r = 0"
    by (simp_all add: dropWhile_shorter)
  with r show "drop (length a) s \<noteq> []" "hd (drop (length a) s) = 0"
    by simp_all
  then show "length a < length s"
    by (simp add: not_le [symmetric])
  show "a = takeWhile strip_allowed s" "a \<noteq> []"
    by fact+
  show "list_all strip_allowed a"
    unfolding a list_all_iff by (auto dest: set_takeWhileD)
qed

lemma rgx_strip_length: "rgx_strip s \<noteq> None \<Longrightarrow> 2 \<le> length s"
proof -
  assume "rgx_strip s \<noteq> None"
  then obtain a where "rgx_strip s = Some a" by auto
  from rgx_strip_Some(2,3) [OF this] show ?thesis
    by (cases a) auto
qed

lemma rgx_strip_name_padded:
  assumes "s \<noteq> []" "last s = 0"
  shows "rgx_strip s \<noteq> None \<longleftrightarrow> name_padded s"
proof -
  define a where "a = takeWhile strip_allowed s"
  define r where "r = dropWhile strip_allowed s"
  define z where "z = dropWhile (\<lambda>b. b = 0) r"
  have split: "s = a @ r"
    by (simp add: a_def r_def)
  have no_nl: "z \<noteq> [0x0A]"
  proof
    assume nl: "z = [0x0A]"
    have "r = takeWhile (\<lambda>b. b = 0) r @ z"
      by (simp add: z_def)
    with nl have r: "r = takeWhile (\<lambda>b. b = 0) r @ [0x0A]"
      by simp
    then have "r \<noteq> []"
      by (metis snoc_eq_iff_butlast)
    from r have "last r = 0x0A"
      by (metis last_snoc)
    moreover from \<open>r \<noteq> []\<close> split have "last s = last r"
      by simp
    ultimately show False using assms(2) by simp
  qed
  have zero: "z = [] \<longleftrightarrow> list_all (\<lambda>b. b = 0) r"
    by (simp add: z_def dropWhile_eq_Nil_conv list_all_iff)
  have strip: "rgx_strip s \<noteq> None \<longleftrightarrow> a \<noteq> [] \<and> z \<noteq> r \<and> (z = [] \<or> z = [0x0A])"
    by (simp add: rgx_strip_def Let_def a_def r_def z_def)
  have padded: "name_padded s \<longleftrightarrow> a \<noteq> [] \<and> r \<noteq> [] \<and> list_all (\<lambda>b. b = 0) r"
    by (simp add: name_padded_def Let_def a_def r_def)
  from no_nl zero show ?thesis
    unfolding strip padded by blast
qed

section \<open>The structural pattern\<close>

lemma hero_window_length: "hero_window s \<Longrightarrow> 1025 \<le> length s"
  by (simp add: hero_window_def)

lemma leftmost_Some:
  "leftmost P i s = Some j \<Longrightarrow> i \<le> j \<and> j - i \<le> length s \<and> P (drop (j - i) s)"
proof (induction s arbitrary: i)
  case Nil
  then show ?case by (simp split: if_splits)
next
  case (Cons b s)
  show ?case
  proof (cases "P (b # s)")
    case True
    with Cons.prems show ?thesis by simp
  next
    case False
    with Cons.prems have "leftmost P (Suc i) s = Some j" by simp
    from Cons.IH [OF this] have "Suc i \<le> j" "j - Suc i \<le> length s" "P (drop (j - Suc i) s)"
      by simp_all
    moreover from \<open>Suc i \<le> j\<close> have "j - i = Suc (j - Suc i)" by simp
    ultimately show ?thesis by simp
  qed
qed

lemma leftmost_None:
  "(\<And>k. k \<le> length s \<Longrightarrow> \<not> P (drop k s)) \<Longrightarrow> leftmost P i s = None"
proof (induction s arbitrary: i)
  case Nil
  then show ?case by simp
next
  case (Cons b s)
  from Cons.prems [of 0] have "\<not> P (b # s)" by simp
  moreover have "leftmost P (Suc i) s = None"
  proof (rule Cons.IH)
    fix k assume "k \<le> length s"
    with Cons.prems [of "Suc k"] show "\<not> P (drop k s)" by simp
  qed
  ultimately show ?case by simp
qed

lemma leftmost_here: "P s \<Longrightarrow> leftmost P i s = Some i"
  by (cases s) simp_all

lemma RGX_HERO_Some:
  assumes "RGX_HERO s = Some m"
  shows "m_end m = m_start m + 1025" "m_end m \<le> length s"
    "hero_window (drop (m_start m) s)"
    "m_name m = take 13 (drop (m_start m + 138) s)"
    "m_artifacts m = take 152 (drop (m_start m + 351) s)"
proof -
  from assms obtain i where i: "leftmost hero_window 0 s = Some i"
    and m: "m = \<lparr>m_start = i, m_end = i + 1025, m_name = take 13 (drop (i + 138) s),
                 m_artifacts = take 152 (drop (i + 351) s)\<rparr>"
    by (auto simp: RGX_HERO_def split: option.splits)
  from leftmost_Some [OF i] have w: "hero_window (drop i s)" by simp
  from hero_window_length [OF w] have "i + 1025 \<le> length s" by simp
  with m w show "m_end m = m_start m + 1025" "m_end m \<le> length s"
    "hero_window (drop (m_start m) s)"
    "m_name m = take 13 (drop (m_start m + 138) s)"
    "m_artifacts m = take 152 (drop (m_start m + 351) s)"
    by simp_all
qed

lemma RGX_HERO_captures:
  assumes "RGX_HERO s = Some m"
  shows "length (m_name m) = 13" "length (m_artifacts m) = 152"
    "name_first (hd (m_name m))" "last (m_name m) = 0"
proof -
  note f = RGX_HERO_Some [OF assms]
  define w where "w = drop (m_start m) s"
  have win: "hero_window w"
    using f(3) by (simp add: w_def)
  then have len: "1025 \<le> length w"
    by (rule hero_window_length)
  have nm: "m_name m = take 13 (drop 138 w)" and art: "m_artifacts m = take 152 (drop 351 w)"
    using f(4,5) by (simp_all add: w_def add.commute)
  from len show "length (m_name m) = 13" "length (m_artifacts m) = 152"
    unfolding nm art by simp_all
  from len have "hd (m_name m) = w ! 138"
    unfolding nm by (simp add: hd_conv_nth)
  with win show "name_first (hd (m_name m))"
    by (simp add: hero_window_def)
  from len have "last (m_name m) = w ! 150"
    unfolding nm by (simp add: last_conv_nth)
  with win show "last (m_name m) = 0"
    by (simp add: hero_window_def)
qed

lemma wf_RGX_HERO: "wf_regex RGX_HERO"
  unfolding wf_regex_def
proof (intro allI impI)
  fix s m assume m: "RGX_HERO s = Some m"
  from RGX_HERO_Some(1,2) [OF m] RGX_HERO_captures(1) [OF m]
  show "m_start m \<le> m_end m \<and> m_end m \<le> length s \<and> length (m_name m) \<le> m_end m - m_start m"
    by simp
qed

lemma RGX_HERO_short: "length s < 1025 \<Longrightarrow> RGX_HERO s = None"
proof -
  assume short: "length s < 1025"
  have "leftmost hero_window 0 s = None"
  proof (rule leftmost_None)
    fix k show "\<not> hero_window (drop k s)"
      using short hero_window_length [of "drop k s"] by auto
  qed
  then show ?thesis by (simp add: RGX_HERO_def)
qed

lemma RGX_HERO_Nil: "RGX_HERO [] = None"
  by (rule RGX_HERO_short) simp

lemma RGX_HERO_here:
  "hero_window s \<Longrightarrow>
   RGX_HERO s = Some \<lparr>m_start = 0, m_end = 1025, m_name = take 13 (drop 138 s),
                       m_artifacts = take 152 (drop 351 s)\<rparr>"
  by (simp add: RGX_HERO_def leftmost_here)

section \<open>One detection pass\<close>

lemma scan_step_rejected:
  "\<not> accepted m \<Longrightarrow> scan_step U buf pos vr m = (pos + m_start m + 1, vr)"
  by (auto simp: accepted_def scan_step_def split: option.splits)

lemma scan_step_accepted:
  assumes "accepted m"
  shows "\<exists>nm. rgx_strip (m_name m) = Some nm \<and>
           scan_step U buf pos vr m =
             (pos + m_end m,
              vr @ [\<lparr>name = U nm, bytes = take (m_end m - m_start m) (drop (pos + m_start m) buf),
                     place = length vr, span = (m_start m + pos, m_end m + pos),
                     basestats = [], artifacts = None, stats = None\<rparr>])"
  using assms by (auto simp: accepted_def scan_step_def)

lemma scan_invariant:
  assumes run: "scan U RGX buf pos vr = Some vr'"
    and init: "I pos vr"
    and step: "\<And>p v m. I p v \<Longrightarrow> RGX (drop p buf) = Some m \<Longrightarrow>
                 I (fst (scan_step U buf p v m)) (snd (scan_step U buf p v m))"
  shows "\<exists>pos'. I pos' vr' \<and> RGX (drop pos' buf) = None"
proof -
  let ?P = "\<lambda>U' RGX' buf' p v y.
      U' = U \<and> RGX' = RGX \<and> buf' = buf \<and> I p v \<longrightarrow> (\<exists>pos'. I pos' y \<and> RGX (drop pos' buf) = None)"
  have "?P U RGX buf pos vr vr'"
  proof (rule scan.raw_induct [where P = ?P, OF _ run], intro impI, elim conjE)
    fix sc U' RGX' buf' p v y
    assume IH: "\<And>U' RGX' buf' p v y. sc U' RGX' buf' p v = Some y \<Longrightarrow> ?P U' RGX' buf' p v y"
      and body: "(case RGX' (drop p buf') of None \<Rightarrow> Some v
                  | Some m \<Rightarrow> (case scan_step U' buf' p v m of (pos', vresult') \<Rightarrow> sc U' RGX' buf' pos' vresult'))
                 = Some y"
      and eq: "U' = U" "RGX' = RGX" "buf' = buf" and inv: "I p v"
    show "\<exists>pos'. I pos' y \<and> RGX (drop pos' buf) = None"
    proof (cases "RGX (drop p buf)")
      case None
      with body eq have "y = v" by simp
      with inv None show ?thesis by blast
    next
      case (Some m)
      obtain p' v' where st: "scan_step U buf p v m = (p', v')"
        by (cases "scan_step U buf p v m")
      with body eq Some have "sc U RGX buf p' v' = Some y" by simp
      moreover from step [OF inv Some] st have "I p' v'" by simp
      ultimately show ?thesis using IH by blast
    qed
  qed
  with run init show ?thesis by blast
qed

lemma wf_accepted_nonempty:
  assumes "wf_regex RGX" "RGX s = Some m" "accepted m"
  shows "m_start m + 2 \<le> m_end m" "m_end m \<le> length s"
proof -
  from assms(3) have "2 \<le> length (m_name m)"
    by (simp add: accepted_def rgx_strip_length)
  with assms(1,2) show "m_start m + 2 \<le> m_end m" "m_end m \<le> length s"
    unfolding wf_regex_def by fastforce+
qed

lemma scan_step_progress:
  assumes "wf_regex RGX" "RGX (drop pos buf) = Some m"
  shows "pos < fst (scan_step U buf pos vr m)"
proof (cases "accepted m")
  case True
  from wf_accepted_nonempty(1) [OF assms True] scan_step_accepted [OF True, of U buf pos vr]
  show ?thesis by auto
next
  case False
  then show ?thesis by (simp add: scan_step_rejected)
qed

lemma scan_terminates:
  assumes wf: "wf_regex RGX" and ne: "RGX [] = None"
  shows "\<exists>vr'. scan U RGX buf pos vr = Some vr'"
proof (induction "length buf - pos" arbitrary: pos vr rule: less_induct)
  case less
  show ?case
  proof (cases "RGX (drop pos buf)")
    case None
    then show ?thesis by (subst scan.simps) simp
  next
    case (Some m)
    with ne have inside: "pos < length buf"
      by (cases "pos < length buf") auto
    obtain p' v' where st: "scan_step U buf pos vr m = (p', v')"
      by (cases "scan_step U buf pos vr m")
    from scan_step_progress [OF wf Some, of U vr] st have "pos < p'" by simp
    with inside have "length buf - p' < length buf - pos" by arith
    from less [OF this] obtain r where "scan U RGX buf p' v' = Some r" by blast
    with Some st show ?thesis by (subst scan.simps) simp
  qed
qed

lemma scan_lower_bound:
  assumes run: "scan U RGX buf pos vr = Some vr'"
    and old: "\<forall>h\<in>set vr. L \<le> fst (span h)" and pos: "L \<le> pos"
  shows "\<forall>h\<in>set vr'. L \<le> fst (span h)"
proof -
  let ?I = "\<lambda>p (v :: hero list). L \<le> p \<and> (\<forall>h\<in>set v. L \<le> fst (span h))"
  have "\<exists>pos'. ?I pos' vr' \<and> RGX (drop pos' buf) = None"
  proof (rule scan_invariant [OF run, where I = ?I])
    show "?I pos vr" using old pos by simp
  next
    fix p v m assume "?I p v"
    then show "?I (fst (scan_step U buf p v m)) (snd (scan_step U buf p v m))"
      by (auto simp: scan_step_def split: option.splits)
  qed
  then show ?thesis by blast
qed

lemma scan_spans:
  assumes wf: "wf_regex RGX" and run: "scan U RGX buf pos vr = Some vr'"
  shows "\<exists>new. vr' = vr @ new \<and> disjoint_increasing new
           \<and> (\<forall>h\<in>set new. pos \<le> fst (span h) \<and> snd (span h) \<le> length buf)"
proof -
  let ?I = "\<lambda>p v. \<exists>new. v = vr @ new \<and> disjoint_increasing new
              \<and> (\<forall>h\<in>set new. pos \<le> fst (span h) \<and> snd (span h) \<le> length buf \<and> snd (span h) \<le> p)
              \<and> pos \<le> p"
  have "\<exists>pos'. ?I pos' vr' \<and> RGX (drop pos' buf) = None"
  proof (rule scan_invariant [OF run, where I = ?I])
    show "?I pos vr" by (simp add: disjoint_increasing_def)
  next
    fix p v m assume inv: "?I p v" and m: "RGX (drop p buf) = Some m"
    then obtain new where new: "v = vr @ new" "disjoint_increasing new"
      "\<forall>h\<in>set new. pos \<le> fst (span h) \<and> snd (span h) \<le> length buf \<and> snd (span h) \<le> p"
      "pos \<le> p"
      by blast
    show "?I (fst (scan_step U buf p v m)) (snd (scan_step U buf p v m))"
    proof (cases "accepted m")
      case False
      with new show ?thesis
        by (auto simp: scan_step_rejected)
    next
      case True
      from wf_accepted_nonempty [OF wf m True]
      have width: "m_start m + 2 \<le> m_end m" and fits: "p + m_end m \<le> length buf"
        by auto
      from scan_step_accepted [OF True, of U buf p v]
      obtain h where h: "scan_step U buf p v m = (p + m_end m, v @ [h])"
        "span h = (m_start m + p, m_end m + p)"
        by auto
      have "disjoint_increasing (new @ [h])"
        using new(2,3) h(2) width
        by (auto simp: disjoint_increasing_def sorted_wrt_append)
      moreover have "\<forall>x\<in>set (new @ [h]). pos \<le> fst (span x) \<and> snd (span x) \<le> length buf
                        \<and> snd (span x) \<le> p + m_end m"
        using new(3,4) h(2) fits by (auto simp: add.commute)
      ultimately show ?thesis
        using new(1,4) h(1) by auto
    qed
  qed
  then show ?thesis by blast
qed

lemma disjoint_increasing_starts:
  "disjoint_increasing hs \<Longrightarrow> sorted_wrt (\<lambda>h h'. fst (span h) < fst (span h')) hs"
  unfolding disjoint_increasing_def list_all_iff
  by (induction hs) (auto intro: less_le_trans)

lemma scan_end: "length buf < pos + 1025 \<Longrightarrow> scan U RGX_HERO buf pos vr = Some vr"
  by (subst scan.simps) (simp add: RGX_HERO_short)

lemma scan_accept_here:
  assumes "hero_window (drop pos buf)"
    and "rgx_strip (take 13 (drop 138 (drop pos buf))) = Some nm"
    and "\<not> rgx_nulls (take 152 (drop 351 (drop pos buf)))"
  shows "scan U RGX_HERO buf pos vr =
         scan U RGX_HERO buf (pos + 1025)
           (vr @ [\<lparr>name = U nm, bytes = take 1025 (drop pos buf), place = length vr,
                   span = (pos, 1025 + pos), basestats = [], artifacts = None, stats = None\<rparr>])"
proof -
  let ?m = "\<lparr>m_start = 0, m_end = 1025, m_name = take 13 (drop 138 (drop pos buf)),
             m_artifacts = take 152 (drop 351 (drop pos buf))\<rparr>"
  have found: "RGX_HERO (drop pos buf) = Some ?m"
    using assms(1) by (rule RGX_HERO_here)
  have "scan_step U buf pos vr ?m =
          (pos + 1025,
           vr @ [\<lparr>name = U nm, bytes = take 1025 (drop pos buf), place = length vr,
                   span = (pos, 1025 + pos), basestats = [], artifacts = None, stats = None\<rparr>])"
    using assms(2,3) by (simp add: scan_step_def)
  with found show ?thesis
    by (subst scan.simps) simp
qed

section \<open>The loop over the versions and the choice\<close>

lemma versions_loop_Nil [simp]: "versions_loop E buf [] vr = Some vr"
  by (subst versions_loop.simps) simp

lemma versions_loop_snoc:
  "versions_loop E buf (vs @ [v]) vr =
     (case scan (to_unicode E) (adapt_regex E v RGX_HERO) buf 10000
             (case map_of vr v of None \<Rightarrow> [] | Some l \<Rightarrow> l) of
        None \<Rightarrow> None
      | Some l' \<Rightarrow> versions_loop E buf vs (AList.update v l' vr))"
  by (subst versions_loop.simps) (simp add: Let_def split: option.splits)

lemma versions_loop_distinct:
  assumes "distinct vs" "set vs \<inter> fst ` set vr = {}" "distinct (map fst vr)"
    and "\<forall>k\<in>set vs. scan (to_unicode E) (adapt_regex E k RGX_HERO) buf 10000 [] = Some (res k)"
  shows "\<exists>vr'. versions_loop E buf vs vr = Some vr' \<and> distinct (map fst vr')
           \<and> map_of vr' = (\<lambda>k. if k \<in> set vs then Some (res k) else map_of vr k)"
  using assms
proof (induction vs arbitrary: vr rule: rev_induct)
  case Nil
  then show ?case by simp
next
  case (snoc v vs)
  from snoc.prems(2) have fresh: "map_of vr v = None"
    by (auto simp: map_of_eq_None_iff)
  let ?vr = "AList.update v (res v) vr"
  have "distinct vs" "set vs \<inter> fst ` set ?vr = {}" "distinct (map fst ?vr)"
    "\<forall>k\<in>set vs. scan (to_unicode E) (adapt_regex E k RGX_HERO) buf 10000 [] = Some (res k)"
    using snoc.prems by (auto simp: dom_update distinct_update)
  from snoc.IH [OF this] obtain vr' where vr': "versions_loop E buf vs ?vr = Some vr'"
    "distinct (map fst vr')"
    "map_of vr' = (\<lambda>k. if k \<in> set vs then Some (res k) else map_of ?vr k)"
    by blast
  have "map_of vr' = (\<lambda>k. if k \<in> set (vs @ [v]) then Some (res k) else map_of vr k)"
    unfolding vr'(3) by (auto simp: update_conv')
  moreover have "versions_loop E buf (vs @ [v]) vr = Some vr'"
    using snoc.prems(4) fresh vr'(1) by (simp add: versions_loop_snoc)
  ultimately show ?case using vr'(2) by blast
qed

lemma versions_loop_invariant:
  assumes run: "versions_loop E buf vs vr = Some vr'"
    and init: "\<And>k l. (k, l) \<in> set vr \<Longrightarrow> P l" and empty: "P []"
    and pass: "\<And>RGX l l'. P l \<Longrightarrow> scan (to_unicode E) RGX buf 10000 l = Some l' \<Longrightarrow> P l'"
  shows "(\<forall>k l. (k, l) \<in> set vr' \<longrightarrow> P l) \<and> fst ` set vr' = fst ` set vr \<union> set vs"
  using run init
proof (induction vs arbitrary: vr rule: rev_induct)
  case Nil
  then show ?case by simp
next
  case (snoc v vs)
  let ?old = "case map_of vr v of None \<Rightarrow> [] | Some l \<Rightarrow> l"
  from snoc.prems(1) obtain l' where l': "scan (to_unicode E) (adapt_regex E v RGX_HERO) buf 10000 ?old = Some l'"
    and rest: "versions_loop E buf vs (AList.update v l' vr) = Some vr'"
    by (auto simp: versions_loop_snoc split: option.splits)
  have "P ?old"
  proof (cases "map_of vr v")
    case None
    with empty show ?thesis by simp
  next
    case (Some l)
    then have "(v, l) \<in> set vr" by (rule map_of_SomeD)
    with snoc.prems(2) Some show ?thesis by simp
  qed
  from pass [OF this l'] have new: "P l'" .
  have sub: "set (AList.update v l' vr) \<subseteq> insert (v, l') (set vr)"
    by (induction vr) auto
  have "P l" if "(k, l) \<in> set (AList.update v l' vr)" for k l
    using that sub new snoc.prems(2) by blast
  from snoc.IH [OF rest this] show ?case
    by (auto simp: dom_update)
qed

lemma versions_loop_empty:
  assumes "\<forall>k\<in>set vs. scan (to_unicode E) (adapt_regex E k RGX_HERO) buf 10000 [] = Some []"
    and "\<And>k l. (k, l) \<in> set vr \<Longrightarrow> l = []"
  shows "\<exists>vr'. versions_loop E buf vs vr = Some vr' \<and> (\<forall>k l. (k, l) \<in> set vr' \<longrightarrow> l = [])
           \<and> fst ` set vr' = fst ` set vr \<union> set vs"
  using assms
proof (induction vs arbitrary: vr rule: rev_induct)
  case Nil
  then show ?case by simp
next
  case (snoc v vs)
  have old: "(case map_of vr v of None \<Rightarrow> [] | Some l \<Rightarrow> l) = []"
    using snoc.prems(2) by (auto split: option.splits dest: map_of_SomeD)
  have sub: "set (AList.update v [] vr) \<subseteq> insert (v, []) (set vr)"
    by (induction vr) auto
  have "l = []" if "(k, l) \<in> set (AList.update v [] vr)" for k l
    using that sub snoc.prems(2) by blast
  with snoc.IH [of "AList.update v [] vr"] snoc.prems(1)
  obtain vr' where vr': "versions_loop E buf vs (AList.update v [] vr) = Some vr'"
    "\<forall>k l. (k, l) \<in> set vr' \<longrightarrow> l = []"
    "fst ` set vr' = fst ` set (AList.update v [] vr) \<union> set vs"
    by auto
  have "versions_loop E buf (vs @ [v]) vr = Some vr'"
    using snoc.prems(1) old vr'(1) by (simp add: versions_loop_snoc)
  with vr'(2,3) show ?case
    by (auto simp: dom_update)
qed

lemma versions_loop_returns:
  assumes "\<forall>ver. wf_regex (adapt_regex E ver RGX_HERO) \<and> adapt_regex E ver RGX_HERO [] = None"
  shows "\<exists>vr'. versions_loop E buf vs vr = Some vr'"
proof (induction vs arbitrary: vr rule: rev_induct)
  case Nil
  show ?case by simp
next
  case (snoc v vs)
  from assms scan_terminates [of "adapt_regex E v RGX_HERO" "to_unicode E" buf 10000]
  obtain l where "scan (to_unicode E) (adapt_regex E v RGX_HERO) buf 10000
                    (case map_of vr v of None \<Rightarrow> [] | Some l \<Rightarrow> l) = Some l"
    by blast
  with snoc.IH [of "AList.update v l vr"] show ?case
    by (simp add: versions_loop_snoc)
qed

lemma py_max_Max: "py_max xs = Max (insert 0 (set xs))"
  using Max.set_eq_fold [of 0 xs] by (simp add: py_max_def)

lemma py_max_ge: "x \<in> set xs \<Longrightarrow> x \<le> py_max xs"
  by (simp add: py_max_Max)

lemma py_max_le: "(\<And>x. x \<in> set xs \<Longrightarrow> x \<le> b) \<Longrightarrow> py_max xs \<le> b"
  by (simp add: py_max_Max)

lemma maxcount_vers_filter:
  assumes "\<forall>k\<in>set ks. map_of vcounts k = Some (c k)"
  shows "maxcount_vers ks vcounts = Inr (filter (\<lambda>k. c k = py_max (map snd vcounts)) ks)"
  using assms by (induction ks) simp_all

lemma map_of_counts:
  "map_of (map (\<lambda>(k, v). (k, length v)) vr) k = map_option length (map_of vr k)"
  by (induction vr) auto

lemma candidate_versions_nonempty: "candidate_versions E d v \<noteq> []"
  by (simp add: candidate_versions_def Let_def)

lemma parse_distinct:
  assumes cands: "candidate_versions E d (version (savefile self)) = before @ sel # after"
    and dist: "distinct (before @ sel # after)"
    and passes: "\<forall>k\<in>set (before @ sel # after).
        scan (to_unicode E) (adapt_regex E k RGX_HERO) (raw (savefile self)) 10000 [] = Some (res k)"
    and later: "\<forall>k\<in>set after. length (res k) < length (res sel)"
    and earlier: "\<forall>k\<in>set before. length (res k) \<le> length (res sel)"
  shows "parse E d self =
           Some (Inr (if truthy sel
                      then self\<lparr>savefile := (savefile self)\<lparr>version := sel\<rparr>,
                                heroes := sort_key (\<lambda>x. str_lower E (name x)) (res sel)\<rparr>
                      else self\<lparr>savefile := (savefile self)\<lparr>version := version (savefile self)\<rparr>,
                                heroes := [], status := status self @ [''No heroes identified'']\<rparr>))"
proof -
  let ?cands = "before @ sel # after"
  have "\<exists>vr. versions_loop E (raw (savefile self)) ?cands [] = Some vr \<and> distinct (map fst vr)
          \<and> map_of vr = (\<lambda>k. if k \<in> set ?cands then Some (res k) else None)"
  proof -
    have "set ?cands \<inter> fst ` set ([] :: (version_key \<times> hero list) list) = {}"
      "distinct (map fst ([] :: (version_key \<times> hero list) list))"
      by simp_all
    from versions_loop_distinct [OF dist this passes] show ?thesis
      by (simp cong: if_cong)
  qed
  then obtain vr where vr: "versions_loop E (raw (savefile self)) ?cands [] = Some vr"
    "distinct (map fst vr)" "map_of vr = (\<lambda>k. if k \<in> set ?cands then Some (res k) else None)"
    by blast
  define vcounts where "vcounts = map (\<lambda>(k, v). (k, length v)) vr"
  have counts: "\<forall>k\<in>set ?cands. map_of vcounts k = Some (length (res k))"
    by (simp add: vcounts_def map_of_counts vr(3))
  have bound: "length (res k) \<le> length (res sel)" if "k \<in> set ?cands" for k
    using that later earlier by (auto intro: less_imp_le)
  have mem: "(k, l) \<in> set vr \<longleftrightarrow> k \<in> set ?cands \<and> l = res k" for k l
    using vr(2,3) by (auto simp: map_of_eq_Some_iff [symmetric])
  have "py_max (map snd vcounts) \<le> length (res sel)"
  proof (rule py_max_le)
    fix x assume "x \<in> set (map snd vcounts)"
    then obtain k l where "(k, l) \<in> set vr" "x = length l"
      by (auto simp: vcounts_def)
    with mem bound show "x \<le> length (res sel)" by auto
  qed
  moreover have "length (res sel) \<le> py_max (map snd vcounts)"
  proof (rule py_max_ge)
    have "(sel, res sel) \<in> set vr" using mem by simp
    then show "length (res sel) \<in> set (map snd vcounts)"
      by (force simp: vcounts_def)
  qed
  ultimately have pm: "py_max (map snd vcounts) = length (res sel)"
    by simp
  have "filter (\<lambda>k. length (res k) = length (res sel)) after = []"
    using later by (auto simp: filter_empty_conv)
  with maxcount_vers_filter [OF counts] pm
  have maxc: "maxcount_vers ?cands vcounts
                = Inr (filter (\<lambda>k. length (res k) = length (res sel)) before @ [sel])"
    by simp
  have found: "map_of vr sel = Some (res sel)"
    by (simp add: vr(3))
  show ?thesis
    unfolding parse_def Let_def cands
    using vr(1) maxc found by (simp add: vcounts_def [symmetric])
qed

lemma parse_Inr:
  assumes "parse E d self = Some (Inr out)"
  shows "heroes out = [] \<or>
         (\<exists>vr ver found. versions_loop E (raw (savefile self))
                            (candidate_versions E d (version (savefile self))) [] = Some vr
            \<and> map_of vr ver = Some found
            \<and> heroes out = sort_key (\<lambda>x. str_lower E (name x)) found)"
proof -
  let ?cands = "candidate_versions E d (version (savefile self))"
  from assms obtain vr where vr: "versions_loop E (raw (savefile self)) ?cands [] = Some vr"
    by (auto simp: parse_def Let_def split: option.splits)
  from assms vr obtain mc where mc: "maxcount_vers ?cands (map (\<lambda>(k, v). (k, length v)) vr) = Inr mc"
    by (auto simp: parse_def Let_def split: sum.splits)
  let ?ver = "if mc \<noteq> [] then last mc else None"
  show ?thesis
  proof (cases "truthy ?ver")
    case False
    with assms vr mc have "heroes out = []"
      by (auto simp: parse_def Let_def)
    then show ?thesis ..
  next
    case True
    with assms vr mc obtain found where "map_of vr ?ver = Some found"
      "heroes out = sort_key (\<lambda>x. str_lower E (name x)) found"
      by (auto simp: parse_def Let_def split: option.splits)
    with vr show ?thesis by blast
  qed
qed

text \<open>
  With patterns that are search functions of regular expressions and do not match the
  empty byte string, \<open>parse\<close> returns, and it returns without an exception: the lookups
  \<open>vcounts[k]\<close> and \<open>version_results[ver]\<close> find their keys.
\<close>

lemma parse_returns:
  assumes "\<forall>ver. wf_regex (adapt_regex E ver RGX_HERO) \<and> adapt_regex E ver RGX_HERO [] = None"
  shows "\<exists>out. parse E d self = Some (Inr out)"
proof -
  let ?cands = "candidate_versions E d (version (savefile self))"
  from versions_loop_returns [OF assms]
  obtain vr where vr: "versions_loop E (raw (savefile self)) ?cands [] = Some vr"
    by blast
  have "(\<forall>k l. (k, l) \<in> set vr \<longrightarrow> True) \<and> fst ` set vr = fst ` set ([] :: (version_key \<times> hero list) list) \<union> set ?cands"
    by (rule versions_loop_invariant [OF vr]) simp_all
  then have keys: "fst ` set vr = set ?cands"
    by simp
  define vcounts where "vcounts = map (\<lambda>(k, v). (k, length v)) vr"
  define c where "c k = length (the (map_of vr k))" for k
  have look: "\<exists>l. map_of vr k = Some l" if "k \<in> set ?cands" for k
    using that keys by (metis domD dom_map_of_conv_image_fst)
  have "map_of vcounts k = Some (c k)" if "k \<in> set ?cands" for k
  proof -
    from look [OF that] obtain l where "map_of vr k = Some l" by blast
    then show ?thesis by (simp add: vcounts_def map_of_counts c_def)
  qed
  then have "\<forall>k\<in>set ?cands. map_of vcounts k = Some (c k)"
    by blast
  from maxcount_vers_filter [OF this]
  have mc: "maxcount_vers ?cands vcounts = Inr (filter (\<lambda>k. c k = py_max (map snd vcounts)) ?cands)"
    (is "_ = Inr ?mc") .
  let ?ver = "if ?mc \<noteq> [] then last ?mc else None"
  show ?thesis
  proof (cases "truthy ?ver")
    case False
    with vr mc show ?thesis
      by (simp add: parse_def Let_def vcounts_def [symmetric])
  next
    case True
    then have "?mc \<noteq> []" by (auto simp: truthy_def)
    then have "last ?mc \<in> set ?mc" by (rule last_in_set)
    then have "last ?mc \<in> set ?cands" by simp
    from look [OF this] \<open>?mc \<noteq> []\<close> obtain l where "map_of vr ?ver = Some l" by auto
    with True vr mc show ?thesis
      by (simp add: parse_def Let_def vcounts_def [symmetric])
  qed
qed

section \<open>Evaluating the concrete inputs\<close>

lemma slots_append:
  "length xs = 8 * n \<Longrightarrow> slots P n (xs @ ys) = slots P n xs"
proof (induction n arbitrary: xs)
  case 0
  then show ?case by simp
next
  case (Suc n)
  then have "length (drop 8 xs) = 8 * n" by simp
  from Suc.IH [OF this] Suc.prems show ?case by simp
qed

lemma slots_replicate:
  "length x = 8 \<Longrightarrow> P x \<Longrightarrow> slots P n (concat (replicate n x))"
  by (induction n) simp_all

lemma slots_concat:
  "list_all (\<lambda>x. length x = 8 \<and> P x) xs \<Longrightarrow> slots P (length xs) (concat xs)"
  by (induction xs) simp_all

lemma slots_first: "slots P n s \<Longrightarrow> 0 < n \<Longrightarrow> P (take 8 s)"
  by (cases n) simp_all

lemma length_concat_replicate: "length (concat (replicate n x)) = n * length x"
  by (induction n) simp_all

lemma example_window_length:
  "length nm = 13 \<Longrightarrow> length eq = 152 \<Longrightarrow> length (example_window nm eq) = 1025"
  by (simp add: example_window_def length_concat_replicate free_pack_slot_def)

lemma example_window_name:
  "length nm = 13 \<Longrightarrow> take 13 (drop 138 (example_window nm eq @ rest)) = nm"
  by (simp add: example_window_def)

lemma example_window_artifacts:
  "length nm = 13 \<Longrightarrow> length eq = 152 \<Longrightarrow> take 152 (drop 351 (example_window nm eq @ rest)) = eq"
  by (simp add: example_window_def)

lemma example_window_matches:
  assumes nm: "length nm = 13" "name_first (hd nm)" "last nm = 0"
    and eq: "length eq = 152" "slots equip_slot 19 eq"
  shows "hero_window (example_window nm eq @ rest)"
proof -
  have ne: "nm \<noteq> []"
    using nm(1) by auto
  have first: "nm ! 0 = hd nm"
    using ne by (simp add: hd_conv_nth)
  have final: "nm ! 12 = last nm"
    using ne nm(1) by (simp add: last_conv_nth)
  have pack: "slots pack_slot 64 (concat (replicate 64 free_pack_slot))"
    by (rule slots_replicate) (simp_all add: free_pack_slot_def)
  have "slots pack_slot 64 (concat (replicate 64 free_pack_slot) @ ys)" for ys
    using pack by (simp add: slots_append length_concat_replicate free_pack_slot_def)
  moreover have "slots equip_slot 19 (eq @ ys)" for ys
    using eq by (simp add: slots_append)
  ultimately show ?thesis
    unfolding hero_window_def example_window_def
    using nm eq first final
    by (simp add: nth_append length_concat_replicate free_pack_slot_def list_all_iff)
qed

lemma RGX_HERO_example:
  assumes "length nm = 13" "name_first (hd nm)" "last nm = 0"
    and "length eq = 152" "slots equip_slot 19 eq"
  shows "RGX_HERO (example_window nm eq) =
           Some \<lparr>m_start = 0, m_end = 1025, m_name = nm, m_artifacts = eq\<rparr>"
proof -
  have "hero_window (example_window nm eq @ [])"
    using assms by (rule example_window_matches)
  then have "hero_window (example_window nm eq)"
    by simp
  from RGX_HERO_here [OF this] show ?thesis
    using example_window_name [OF assms(1), of eq "[]"]
      example_window_artifacts [OF assms(1,4), of "[]"] by simp
qed

lemma worn_facts:
  "length worn = 152" "slots equip_slot 19 worn" "\<not> rgx_nulls worn"
proof -
  let ?xs = "blank_slot # axe_slot # replicate 17 blank_slot"
  have "list_all (\<lambda>x. length x = 8 \<and> equip_slot x) ?xs"
    by (simp add: blank_slot_def axe_slot_def list_all_iff)
  from slots_concat [OF this] show "slots equip_slot 19 worn"
    by (simp add: worn_def)
  show "length worn = 152"
    by (simp add: worn_def blank_slot_def axe_slot_def length_concat_replicate)
  show "\<not> rgx_nulls worn"
    by (simp add: rgx_nulls_iff worn_def blank_slot_def)
qed

lemma blank_first_not_nulls: "blank_equip (take 8 s) \<Longrightarrow> \<not> rgx_nulls s"
  by (cases s) (auto simp: rgx_nulls_iff blank_equip_def)

lemma nul_helm_facts:
  "length nul_helm = 152" "slots equip_slot 19 nul_helm" "rgx_nulls nul_helm"
  "\<not> all_blank nul_helm" "\<not> all_nul nul_helm"
proof -
  let ?xs = "nul_slot # replicate 18 axe_slot"
  have "list_all (\<lambda>x. length x = 8 \<and> equip_slot x) ?xs"
    by (simp add: nul_slot_def axe_slot_def list_all_iff)
  from slots_concat [OF this] show "slots equip_slot 19 nul_helm"
    by (simp add: nul_helm_def)
  show "length nul_helm = 152"
    by (simp add: nul_helm_def nul_slot_def axe_slot_def length_concat_replicate)
  show "rgx_nulls nul_helm"
    by (simp add: rgx_nulls_iff nul_helm_def nul_slot_def)
  have "\<not> blank_equip (take 8 nul_helm)"
    by (simp add: blank_equip_def nul_helm_def nul_slot_def)
  then show "\<not> all_blank nul_helm"
    unfolding all_blank_def using slots_first [of blank_equip 19 nul_helm] by auto
  show "\<not> all_nul nul_helm"
    by (simp add: all_nul_def nul_helm_def nul_slot_def)
qed

lemma unequipped_facts:
  "length unequipped = 152" "slots equip_slot 19 unequipped" "all_blank unequipped"
  "\<not> rgx_nulls unequipped"
proof -
  have "list_all (\<lambda>x. length x = 8 \<and> equip_slot x) (replicate 19 blank_slot)"
    "list_all (\<lambda>x. length x = 8 \<and> blank_equip x) (replicate 19 blank_slot)"
    by (simp_all add: blank_slot_def blank_equip_def list_all_iff)
  from this [THEN slots_concat] show "slots equip_slot 19 unequipped" "all_blank unequipped"
    by (simp_all add: unequipped_def all_blank_def)
  show "length unequipped = 152"
    by (simp add: unequipped_def blank_slot_def length_concat_replicate)
  from \<open>all_blank unequipped\<close> have "blank_equip (take 8 unequipped)"
    unfolding all_blank_def by (rule slots_first) simp
  then show "\<not> rgx_nulls unequipped"
    by (rule blank_first_not_nulls)
qed

lemma name_facts:
  "length name_Zed = 13" "name_first (hd name_Zed)" "last name_Zed = 0"
  "rgx_strip name_Zed = Some [0x5A, 0x65, 0x64]"
  "length name_adam = 13" "name_first (hd name_adam)" "last name_adam = 0"
  "rgx_strip name_adam = Some [0x61, 0x64, 0x61, 0x6D]"
  by (simp_all add: name_Zed_def name_adam_def name_first_def rgx_strip_def strip_allowed_def)

lemma name_adam_padded: "name_padded name_adam"
  by (simp add: name_padded_def name_adam_def strip_allowed_def list_all_iff)

lemma window_lengths [simp]:
  "length (example_window name_Zed worn) = 1025" "length (example_window name_adam worn) = 1025"
  by (simp_all add: example_window_length name_facts worn_facts)

lemma padding_length [simp]: "length padding = 10000"
  by (simp add: padding_def)

lemma scan_two_heroes:
  "scan latin1 RGX_HERO two_heroes 10000 [] = Some [hero_Zed, hero_adam]"
proof -
  let ?W1 = "example_window name_Zed worn" and ?W2 = "example_window name_adam worn"
  have d1: "drop 10000 two_heroes = ?W1 @ ?W2"
    by (simp add: two_heroes_def)
  have d2: "drop 11025 two_heroes = ?W2 @ []"
    by (simp add: two_heroes_def)
  have w1: "hero_window (drop 10000 two_heroes)"
    unfolding d1 by (rule example_window_matches) (simp_all add: name_facts worn_facts)
  have w2: "hero_window (drop 11025 two_heroes)"
    unfolding d2 by (rule example_window_matches) (simp_all add: name_facts worn_facts)
  have n1: "rgx_strip (take 13 (drop 138 (drop 10000 two_heroes))) = Some [0x5A, 0x65, 0x64]"
    unfolding d1 by (simp only: example_window_name name_facts)
  have n2: "rgx_strip (take 13 (drop 138 (drop 11025 two_heroes))) = Some [0x61, 0x64, 0x61, 0x6D]"
    unfolding d2 by (simp only: example_window_name name_facts)
  have a1: "\<not> rgx_nulls (take 152 (drop 351 (drop 10000 two_heroes)))"
    unfolding d1 by (simp only: example_window_artifacts name_facts worn_facts not_False_eq_True)
  have a2: "\<not> rgx_nulls (take 152 (drop 351 (drop 11025 two_heroes)))"
    unfolding d2 by (simp only: example_window_artifacts name_facts worn_facts not_False_eq_True)
  have b1: "take 1025 (drop 10000 two_heroes) = ?W1"
    unfolding d1 by simp
  have b2: "take 1025 (drop 11025 two_heroes) = ?W2"
    unfolding d2 by simp
  have "scan latin1 RGX_HERO two_heroes 10000 [] = scan latin1 RGX_HERO two_heroes 11025 [hero_Zed]"
    by (subst scan_accept_here [OF w1 n1 a1]) (simp add: b1 hero_Zed_def latin1_def)
  also have "\<dots> = scan latin1 RGX_HERO two_heroes 12050 [hero_Zed, hero_adam]"
    by (subst scan_accept_here [OF w2 n2 a2]) (simp add: b2 hero_adam_def latin1_def)
  also have "\<dots> = Some [hero_Zed, hero_adam]"
    by (rule scan_end) (simp add: two_heroes_def)
  finally show ?thesis .
qed

lemma RGX_HERO_example_rest:
  assumes "length nm = 13" "name_first (hd nm)" "last nm = 0"
    and "length eq = 152" "slots equip_slot 19 eq"
  shows "RGX_HERO (example_window nm eq @ rest) =
           Some \<lparr>m_start = 0, m_end = 1025, m_name = nm, m_artifacts = eq\<rparr>"
proof -
  have "hero_window (example_window nm eq @ rest)"
    using assms by (rule example_window_matches)
  from RGX_HERO_here [OF this] show ?thesis
    using example_window_name [OF assms(1), of eq rest]
      example_window_artifacts [OF assms(1,4), of rest] by simp
qed

lemma found_rejected:
  "RGX_HERO (drop 10000 one_rejected) =
     Some \<lparr>m_start = 0, m_end = 1025, m_name = name_adam, m_artifacts = nul_helm\<rparr>"
  using RGX_HERO_example [of name_adam nul_helm]
  by (simp add: one_rejected_def name_facts nul_helm_facts)

lemma found_Zed:
  "RGX_HERO (drop 10000 two_heroes) =
     Some \<lparr>m_start = 0, m_end = 1025, m_name = name_Zed, m_artifacts = worn\<rparr>"
  using RGX_HERO_example_rest [of name_Zed worn "example_window name_adam worn"]
  by (simp add: two_heroes_def name_facts worn_facts)

lemma one_rejected_length: "length one_rejected = 11025"
  by (simp add: one_rejected_def example_window_length name_facts nul_helm_facts)

lemma E_plain_simps [simp]:
  "to_unicode E_plain = latin1" "str_lower E_plain = ascii_lower"
  "adapt_regex E_plain ver rgx = rgx"
  "candidate_versions E_plain True v = [Some ''version1'', Some ''version2'']"
  by (simp_all add: E_plain_def candidate_versions_def)

lemma plugin_on_simps [simp]:
  "raw (savefile (plugin_on buf)) = buf" "version (savefile (plugin_on buf)) = None"
  by (simp_all add: plugin_on_def)

lemma sort_two: "sort_key (\<lambda>x. ascii_lower (name x)) [hero_Zed, hero_adam] = [hero_adam, hero_Zed]"
  by (simp add: hero_Zed_def hero_adam_def ascii_lower_def)

lemma parse_two_heroes:
  "parse E_plain True (plugin_on two_heroes) =
     Some (Inr \<lparr>savefile = \<lparr>raw = two_heroes, version = Some ''version2''\<rparr>,
                heroes = [hero_adam, hero_Zed], status = []\<rparr>)"
proof -
  let ?res = "\<lambda>k :: version_key. [hero_Zed, hero_adam]"
  have "parse E_plain True (plugin_on two_heroes) =
          Some (Inr (if truthy (Some ''version2'')
                     then (plugin_on two_heroes)
                            \<lparr>savefile := (savefile (plugin_on two_heroes))\<lparr>version := Some ''version2''\<rparr>,
                             heroes := sort_key (\<lambda>x. str_lower E_plain (name x)) (?res (Some ''version2''))\<rparr>
                     else (plugin_on two_heroes)
                            \<lparr>savefile := (savefile (plugin_on two_heroes))
                                 \<lparr>version := version (savefile (plugin_on two_heroes))\<rparr>,
                             heroes := [],
                             status := status (plugin_on two_heroes) @ [''No heroes identified'']\<rparr>))"
    by (rule parse_distinct [where before = "[Some ''version1'']" and after = "[]"])
       (simp_all add: scan_two_heroes)
  then show ?thesis
    unfolding E_plain_simps sort_two by (simp add: truthy_def plugin_on_def)
qed

lemma serialize_all_span: "span (serialize_all plugins h) = span h"
  unfolding serialize_all_def
  by (induction plugins arbitrary: h) (simp_all split: option.splits)

section \<open>The properties of the specification\<close>

subsection \<open>No hero in any layout\<close>

text \<open>
  C1. When the pass of every candidate version yields no hero, \<open>parse\<close> returns an empty
  hero list. Every count is 0 and so equals the maximum, \<open>maxcount_vers\<close> is the whole
  candidate list and its last element is chosen: the version of the savefile becomes the
  last candidate and no message is issued. Only when that key has the truth value false
  (\<open>None\<close> or the empty string) does \<open>parse\<close> issue "No heroes identified" and put the
  version back to its value before the parse.
\<close>

theorem parse_without_heroes:
  assumes "\<forall>k\<in>set (candidate_versions E d (version (savefile self))).
             scan (to_unicode E) (adapt_regex E k RGX_HERO) (raw (savefile self)) 10000 [] = Some []"
  shows "parse E d self =
           Some (Inr (if truthy (last (candidate_versions E d (version (savefile self))))
                      then self\<lparr>savefile := (savefile self)
                                    \<lparr>version := last (candidate_versions E d (version (savefile self)))\<rparr>,
                                heroes := []\<rparr>
                      else self\<lparr>savefile := (savefile self)\<lparr>version := version (savefile self)\<rparr>,
                                heroes := [], status := status self @ [''No heroes identified'']\<rparr>))"
proof -
  define cands where "cands = candidate_versions E d (version (savefile self))"
  have ne: "cands \<noteq> []"
    unfolding cands_def by (rule candidate_versions_nonempty)
  have "\<exists>vr. versions_loop E (raw (savefile self)) cands [] = Some vr
          \<and> (\<forall>k l. (k, l) \<in> set vr \<longrightarrow> l = []) \<and> fst ` set vr = set cands"
    using versions_loop_empty [of cands E "raw (savefile self)" "[]"] assms
    by (simp add: cands_def)
  then obtain vr where vr: "versions_loop E (raw (savefile self)) cands [] = Some vr"
    "\<forall>k l. (k, l) \<in> set vr \<longrightarrow> l = []" "fst ` set vr = set cands"
    by auto
  define vcounts where "vcounts = map (\<lambda>(k, v). (k, length v)) vr"
  have look: "map_of vr k = Some []" if "k \<in> set cands" for k
  proof -
    from that vr(3) obtain l where "map_of vr k = Some l"
      by (metis domD dom_map_of_conv_image_fst)
    moreover from this vr(2) have "l = []"
      by (auto dest: map_of_SomeD)
    ultimately show ?thesis by simp
  qed
  have counts: "\<forall>k\<in>set cands. map_of vcounts k = Some 0"
    by (simp add: vcounts_def map_of_counts look)
  have "\<forall>x\<in>set (map snd vcounts). x = 0"
    using vr(2) by (auto simp: vcounts_def)
  then have "py_max (map snd vcounts) = 0"
    using py_max_le [of "map snd vcounts" 0] by fastforce
  with maxcount_vers_filter [OF counts] have maxc: "maxcount_vers cands vcounts = Inr cands"
    by simp
  from ne have "last cands \<in> set cands" by simp
  from look [OF this] have found: "map_of vr (last cands) = Some []" .
  show ?thesis
    unfolding parse_def Let_def cands_def [symmetric]
    using vr(1) maxc ne found by (simp add: vcounts_def [symmetric])
qed

text \<open>
  A buffer of 10000 NUL bytes holds no hero. With the version plugins \<open>version1\<close> and
  \<open>version2\<close> the savefile, whose version was \<open>None\<close>, ends with the version \<open>version2\<close>
  and without a message.
\<close>

theorem parse_without_heroes_witness:
  "parse E_plain True (plugin_on padding) =
     Some (Inr \<lparr>savefile = \<lparr>raw = padding, version = Some ''version2''\<rparr>,
                heroes = [], status = []\<rparr>)"
proof -
  have pass: "scan latin1 RGX_HERO padding 10000 [] = Some []"
    by (rule scan_end) simp
  have "\<forall>k\<in>set (candidate_versions E_plain True (version (savefile (plugin_on padding)))).
          scan (to_unicode E_plain) (adapt_regex E_plain k RGX_HERO)
            (raw (savefile (plugin_on padding))) 10000 [] = Some []"
    using pass by simp
  from parse_without_heroes [OF this] show ?thesis
    by (simp add: truthy_def plugin_on_def)
qed

subsection \<open>The version that is chosen\<close>

text \<open>
  C2, as amended. Let the candidates be distinct, let every pass return, and let \<open>sel\<close>
  be a candidate with a non-empty key whose pass found at least one hero, at least as many
  as every candidate listed before it and strictly more than every candidate listed after
  it (the candidates listed after it are those tried before it). Then \<open>parse\<close> records
  \<open>sel\<close> as the version of the savefile and keeps the heroes of its pass, sorted. Among
  the candidates with the greatest count the one tried first is chosen.
\<close>

theorem parse_selects_version:
  assumes "candidate_versions E d (version (savefile self)) = before @ sel # after"
    and "distinct (before @ sel # after)"
    and "\<forall>k\<in>set (before @ sel # after).
        scan (to_unicode E) (adapt_regex E k RGX_HERO) (raw (savefile self)) 10000 [] = Some (res k)"
    and "\<forall>k\<in>set after. length (res k) < length (res sel)"
    and "\<forall>k\<in>set before. length (res k) \<le> length (res sel)"
    and "res sel \<noteq> []" and "truthy sel"
  shows "parse E d self =
           Some (Inr (self\<lparr>savefile := (savefile self)\<lparr>version := sel\<rparr>,
                          heroes := sort_key (\<lambda>x. str_lower E (name x)) (res sel)\<rparr>))"
  using parse_distinct [OF assms(1-5)] assms(7) by simp

text \<open>
  Two versions with the unchanged pattern find the same two heroes; \<open>version2\<close>, listed
  last and tried first, is chosen.
\<close>

theorem parse_selects_version_witness:
  "parse E_plain True (plugin_on two_heroes) =
     Some (Inr ((plugin_on two_heroes)
                  \<lparr>savefile := (savefile (plugin_on two_heroes))\<lparr>version := Some ''version2''\<rparr>,
                   heroes := sort_key (\<lambda>x. str_lower E_plain (name x)) [hero_Zed, hero_adam]\<rparr>))"
proof -
  let ?res = "\<lambda>k :: version_key. [hero_Zed, hero_adam]"
  show ?thesis
    by (rule parse_selects_version [where before = "[Some ''version1'']" and after = "[]" and res = ?res])
       (simp_all add: scan_two_heroes truthy_def)
qed

text \<open>
  As the specification states it, the property fails on the same input: both passes yield two heroes, the traversal
  meets \<open>version2\<close> first and \<open>version1\<close> last, and the version recorded is \<open>version2\<close>,
  not the last maximum of the traversal.
\<close>

theorem parse_tie_counterexample:
  "parse E_plain True (plugin_on two_heroes) =
     Some (Inr \<lparr>savefile = \<lparr>raw = two_heroes, version = Some ''version2''\<rparr>,
                heroes = [hero_adam, hero_Zed], status = []\<rparr>)
   \<and> map (pass_count E_plain two_heroes) [Some ''version1'', Some ''version2''] = [2, 2]
   \<and> traversal [Some ''version1'', Some ''version2''] = [Some ''version2'', Some ''version1'']
   \<and> last_max_in_traversal (pass_count E_plain two_heroes) [Some ''version1'', Some ''version2'']
       = Some ''version1''
   \<and> Some ''version2''
       \<noteq> last_max_in_traversal (pass_count E_plain two_heroes) [Some ''version1'', Some ''version2'']"
  by (simp add: parse_two_heroes pass_count_def scan_two_heroes traversal_def
      last_max_in_traversal_def py_max_def)

subsection \<open>Secondary validation of a match\<close>

text \<open>
  C3, as amended. A span that matches \<open>RGX_HERO\<close> is accepted only if its name capture is
  one or more bytes outside \<open>00-19\<close>, the comma and \<open>F0-FF\<close> followed by NUL bytes up to the
  end of the capture, and its equipment capture is not made of NUL bytes only. It is
  accepted whenever the name capture has that shape and the equipment capture does not
  start with a NUL byte, in particular when every equipment slot is blank.
\<close>

theorem validation_rule:
  assumes "RGX_HERO s = Some m"
  shows "(accepted m \<longrightarrow> name_padded (m_name m) \<and> \<not> all_nul (m_artifacts m))
         \<and> (name_padded (m_name m) \<and> hd (m_artifacts m) \<noteq> 0 \<longrightarrow> accepted m)
         \<and> (name_padded (m_name m) \<and> all_blank (m_artifacts m) \<longrightarrow> accepted m)"
proof -
  note c = RGX_HERO_captures [OF assms]
  from c(1) have "m_name m \<noteq> []" by auto
  from rgx_strip_name_padded [OF this c(4)]
  have nm: "rgx_strip (m_name m) \<noteq> None \<longleftrightarrow> name_padded (m_name m)" .
  from c(2) have ne: "m_artifacts m \<noteq> []" by auto
  then have nulls: "rgx_nulls (m_artifacts m) \<longleftrightarrow> hd (m_artifacts m) = 0"
    by (simp add: rgx_nulls_iff)
  have "hd (m_artifacts m) = 0" if "all_nul (m_artifacts m)"
    using that ne by (cases "m_artifacts m") (simp_all add: all_nul_def)
  moreover have "hd (m_artifacts m) \<noteq> 0" if "all_blank (m_artifacts m)"
  proof -
    from that have "blank_equip (take 8 (m_artifacts m))"
      unfolding all_blank_def by (rule slots_first) simp
    then show ?thesis
      using ne by (cases "m_artifacts m") (auto simp: blank_equip_def)
  qed
  ultimately show ?thesis
    using nm nulls by (auto simp: accepted_def)
qed

text \<open>
  A record with the name \<open>adam\<close> and nineteen blank equipment slots is accepted.
\<close>

theorem validation_rule_witness:
  "RGX_HERO (example_window name_adam unequipped)
     = Some \<lparr>m_start = 0, m_end = 1025, m_name = name_adam, m_artifacts = unequipped\<rparr>
   \<and> all_blank unequipped
   \<and> accepted \<lparr>m_start = 0, m_end = 1025, m_name = name_adam, m_artifacts = unequipped\<rparr>"
proof -
  have m: "RGX_HERO (example_window name_adam unequipped)
          = Some \<lparr>m_start = 0, m_end = 1025, m_name = name_adam, m_artifacts = unequipped\<rparr>"
    by (rule RGX_HERO_example) (simp_all add: name_facts unequipped_facts)
  from validation_rule [OF m] name_adam_padded unequipped_facts(3) m show ?thesis
    by simp
qed

text \<open>
  As the specification states it, the property fails in both directions. A record with
  the name \<open>adam\<close> whose first equipment slot is \<open>00 00 00 00 FF FF FF FF\<close> and whose other
  slots hold an artifact is rejected, though its name passes the check and its table is
  neither blank nor NUL throughout; and the same record with nineteen blank equipment
  slots, an empty table, is accepted.
\<close>

theorem validation_counterexample:
  "RGX_HERO (example_window name_adam nul_helm)
     = Some \<lparr>m_start = 0, m_end = 1025, m_name = name_adam, m_artifacts = nul_helm\<rparr>
   \<and> name_padded name_adam \<and> \<not> all_blank nul_helm \<and> \<not> all_nul nul_helm
   \<and> \<not> accepted \<lparr>m_start = 0, m_end = 1025, m_name = name_adam, m_artifacts = nul_helm\<rparr>
   \<and> RGX_HERO (example_window name_adam unequipped)
     = Some \<lparr>m_start = 0, m_end = 1025, m_name = name_adam, m_artifacts = unequipped\<rparr>
   \<and> all_blank unequipped
   \<and> accepted \<lparr>m_start = 0, m_end = 1025, m_name = name_adam, m_artifacts = unequipped\<rparr>"
proof -
  have "RGX_HERO (example_window name_adam nul_helm)
          = Some \<lparr>m_start = 0, m_end = 1025, m_name = name_adam, m_artifacts = nul_helm\<rparr>"
    by (rule RGX_HERO_example) (simp_all add: name_facts nul_helm_facts)
  moreover have "RGX_HERO (example_window name_adam unequipped)
          = Some \<lparr>m_start = 0, m_end = 1025, m_name = name_adam, m_artifacts = unequipped\<rparr>"
    by (rule RGX_HERO_example) (simp_all add: name_facts unequipped_facts)
  ultimately show ?thesis
    by (simp add: name_adam_padded nul_helm_facts unequipped_facts accepted_def name_facts)
qed

subsection \<open>Where the scan resumes\<close>

text \<open>
  C4. A pass that finds no match at its position returns the heroes it has. A pass whose
  match at its position is rejected by the validation is the pass that resumes one byte
  past the start of that match with the same heroes: the rejection adds nothing and raises
  nothing. A pass whose match is accepted is the pass that resumes at the end of the match
  with one more hero, whose span is that of the match, whose bytes are those of the span
  and whose index is its position in the list. For a pattern whose matches are those of a
  regular expression, the heroes that one pass adds have spans that are non-empty,
  pairwise disjoint and strictly increasing, inside the buffer and not before the start of
  the pass; and when the pattern does not match the empty byte string the pass returns.
\<close>

theorem scan_resumes:
  "(RGX (drop pos buf) = None \<longrightarrow> scan U RGX buf pos vr = Some vr)
   \<and> (RGX (drop pos buf) = Some m \<and> \<not> accepted m \<longrightarrow>
        scan U RGX buf pos vr = scan U RGX buf (pos + m_start m + 1) vr)
   \<and> (RGX (drop pos buf) = Some m \<and> accepted m \<longrightarrow>
        (\<exists>nm. rgx_strip (m_name m) = Some nm
            \<and> scan U RGX buf pos vr =
                scan U RGX buf (pos + m_end m)
                  (vr @ [\<lparr>name = U nm,
                          bytes = take (m_end m - m_start m) (drop (pos + m_start m) buf),
                          place = length vr, span = (pos + m_start m, pos + m_end m),
                          basestats = [], artifacts = None, stats = None\<rparr>])))
   \<and> (wf_regex RGX \<and> scan U RGX buf pos vr = Some vr' \<longrightarrow>
        (\<exists>new. vr' = vr @ new \<and> disjoint_increasing new
              \<and> sorted_wrt (\<lambda>h h'. fst (span h) < fst (span h')) new
              \<and> (\<forall>h\<in>set new. pos \<le> fst (span h) \<and> snd (span h) \<le> length buf)))
   \<and> (wf_regex RGX \<and> RGX [] = None \<longrightarrow> (\<exists>found. scan U RGX buf pos vr = Some found))"
proof (intro conjI impI)
  assume "RGX (drop pos buf) = None"
  then show "scan U RGX buf pos vr = Some vr"
    by (subst scan.simps) simp
next
  assume "RGX (drop pos buf) = Some m \<and> \<not> accepted m"
  then show "scan U RGX buf pos vr = scan U RGX buf (pos + m_start m + 1) vr"
    by (subst scan.simps) (simp add: scan_step_rejected)
next
  assume found: "RGX (drop pos buf) = Some m \<and> accepted m"
  then have "accepted m" ..
  from scan_step_accepted [OF this, of U buf pos vr]
  obtain nm where nm: "rgx_strip (m_name m) = Some nm"
    and step: "scan_step U buf pos vr m =
             (pos + m_end m,
              vr @ [\<lparr>name = U nm, bytes = take (m_end m - m_start m) (drop (pos + m_start m) buf),
                     place = length vr, span = (m_start m + pos, m_end m + pos),
                     basestats = [], artifacts = None, stats = None\<rparr>])"
    by blast
  have "scan U RGX buf pos vr =
          scan U RGX buf (pos + m_end m)
            (vr @ [\<lparr>name = U nm,
                    bytes = take (m_end m - m_start m) (drop (pos + m_start m) buf),
                    place = length vr, span = (pos + m_start m, pos + m_end m),
                    basestats = [], artifacts = None, stats = None\<rparr>])"
    using found step by (subst scan.simps) (simp add: add.commute)
  with nm show "\<exists>nm. rgx_strip (m_name m) = Some nm
            \<and> scan U RGX buf pos vr =
                scan U RGX buf (pos + m_end m)
                  (vr @ [\<lparr>name = U nm,
                          bytes = take (m_end m - m_start m) (drop (pos + m_start m) buf),
                          place = length vr, span = (pos + m_start m, pos + m_end m),
                          basestats = [], artifacts = None, stats = None\<rparr>])"
    by blast
next
  assume "wf_regex RGX \<and> scan U RGX buf pos vr = Some vr'"
  then have "\<exists>new. vr' = vr @ new \<and> disjoint_increasing new
           \<and> (\<forall>h\<in>set new. pos \<le> fst (span h) \<and> snd (span h) \<le> length buf)"
    using scan_spans by blast
  then show "\<exists>new. vr' = vr @ new \<and> disjoint_increasing new
              \<and> sorted_wrt (\<lambda>h h'. fst (span h) < fst (span h')) new
              \<and> (\<forall>h\<in>set new. pos \<le> fst (span h) \<and> snd (span h) \<le> length buf)"
    using disjoint_increasing_starts by blast
next
  assume "wf_regex RGX \<and> RGX [] = None"
  then show "\<exists>found. scan U RGX buf pos vr = Some found"
    using scan_terminates by blast
qed

text \<open>
  The pass over a buffer whose only record is rejected resumes at 10001 and ends there
  with no hero; the pass over the buffer with two records resumes at 11025 with the first
  hero and ends with both.
\<close>

theorem scan_resumes_witness:
  "RGX_HERO (drop 10000 one_rejected) =
     Some \<lparr>m_start = 0, m_end = 1025, m_name = name_adam, m_artifacts = nul_helm\<rparr>
   \<and> rgx_nulls nul_helm
   \<and> scan latin1 RGX_HERO one_rejected 10000 [] = scan latin1 RGX_HERO one_rejected 10001 []
   \<and> scan latin1 RGX_HERO one_rejected 10001 [] = Some []
   \<and> RGX_HERO (drop 10000 two_heroes) =
       Some \<lparr>m_start = 0, m_end = 1025, m_name = name_Zed, m_artifacts = worn\<rparr>
   \<and> scan latin1 RGX_HERO two_heroes 10000 [] = scan latin1 RGX_HERO two_heroes 11025 [hero_Zed]
   \<and> scan latin1 RGX_HERO two_heroes 10000 [] = Some [hero_Zed, hero_adam]
   \<and> disjoint_increasing [hero_Zed, hero_adam]"
proof -
  let ?r = "\<lparr>m_start = 0, m_end = 1025, m_name = name_adam, m_artifacts = nul_helm\<rparr>"
  let ?a = "\<lparr>m_start = 0, m_end = 1025, m_name = name_Zed, m_artifacts = worn\<rparr>"
  note rej = scan_resumes [where RGX = RGX_HERO and buf = one_rejected and pos = 10000
      and m = ?r and U = latin1 and vr = "[]" and vr' = "[]"]
  note acc = scan_resumes [where RGX = RGX_HERO and buf = two_heroes and pos = 10000
      and m = ?a and U = latin1 and vr = "[]" and vr' = "[hero_Zed, hero_adam]"]
  have is_rej: "\<not> accepted ?r"
    by (simp add: accepted_def nul_helm_facts)
  have is_acc: "accepted ?a"
    by (simp add: accepted_def name_facts worn_facts)
  have resume_rej: "scan latin1 RGX_HERO one_rejected 10000 [] = scan latin1 RGX_HERO one_rejected 10001 []"
    using rej found_rejected is_rej by simp
  have "length (drop 10001 one_rejected) < 1025"
    by (simp add: one_rejected_length)
  then have "RGX_HERO (drop 10001 one_rejected) = None"
    by (rule RGX_HERO_short)
  with scan_resumes [where RGX = RGX_HERO and buf = one_rejected and pos = 10001
      and U = latin1 and vr = "[]"]
  have resume_end: "scan latin1 RGX_HERO one_rejected 10001 [] = Some []"
    by simp
  have b1: "take 1025 (drop 10000 two_heroes) = example_window name_Zed worn"
    by (simp add: two_heroes_def)
  have resume_acc: "scan latin1 RGX_HERO two_heroes 10000 [] = scan latin1 RGX_HERO two_heroes 11025 [hero_Zed]"
    using acc found_Zed is_acc by (simp add: name_facts b1 hero_Zed_def latin1_def)
  have "disjoint_increasing [hero_Zed, hero_adam]"
    using acc wf_RGX_HERO scan_two_heroes by auto
  with resume_rej resume_end resume_acc found_rejected found_Zed scan_two_heroes nul_helm_facts(3)
  show ?thesis by simp
qed

subsection \<open>Patching keeps the bytes outside the span\<close>

text \<open>
  C5. For a hero whose span lies inside the buffer, the buffer after \<open>patch\<close> has the
  length of the buffer before it and the same byte at every offset outside the span.
\<close>

theorem patch_keeps_outside:
  assumes "patch plugins h sf = (h', r)"
    and "fst (span h) \<le> snd (span h)" and "snd (span h) \<le> length (raw sf)"
  shows "length (buffer_after sf r) = length (raw sf)
         \<and> (\<forall>i<length (raw sf). i < fst (span h) \<or> snd (span h) \<le> i
               \<longrightarrow> buffer_after sf r ! i = raw sf ! i)"
proof -
  obtain a b where sp: "span h = (a, b)" by (cases "span h")
  with assms(2,3) have ab: "a \<le> b" "b \<le> length (raw sf)" by simp_all
  let ?bs = "bytes (serialize_all plugins h)"
  from assms(1) sp have r: "r = Savefile_patch sf ?bs (a, b)"
    by (auto simp: patch_def Let_def serialize_all_span)
  show ?thesis
  proof (cases "length ?bs = b - a")
    case False
    with r show ?thesis
      by (simp add: Savefile_patch_def buffer_after_def)
  next
    case True
    with r have buf: "buffer_after sf r = take a (raw sf) @ ?bs @ drop b (raw sf)"
      by (simp add: Savefile_patch_def buffer_after_def)
    have "length (buffer_after sf r) = length (raw sf)"
      unfolding buf using True ab by simp
    moreover have "buffer_after sf r ! i = raw sf ! i"
      if "i < length (raw sf)" "i < a \<or> b \<le> i" for i
    proof (cases "i < a")
      case True
      with ab show ?thesis
        unfolding buf by (simp add: nth_append)
    next
      case False
      with that have bi: "b \<le> i" by simp
      with ab \<open>length ?bs = b - a\<close> have "\<not> i - a < length ?bs" "i - a - length ?bs = i - b"
        by simp_all
      with False ab bi that(1) show ?thesis
        unfolding buf by (simp add: nth_append)
    qed
    ultimately show ?thesis
      using sp by simp
  qed
qed

text \<open>
  A buffer of 2000 bytes and a record at \<open>[500, 1525)\<close> patched with content of the same
  width: the bytes at 499 and 1525 are the old ones.
\<close>

theorem patch_keeps_outside_witness:
  "snd (patch example_plugins edited_hero old_buffer)
     = Inr \<lparr>raw = replicate 500 0x11 @ replicate 1025 0x33 @ replicate 475 0x11, version = None\<rparr>
   \<and> length (buffer_after old_buffer (snd (patch example_plugins edited_hero old_buffer))) = 2000
   \<and> buffer_after old_buffer (snd (patch example_plugins edited_hero old_buffer)) ! 499 = 0x11
   \<and> buffer_after old_buffer (snd (patch example_plugins edited_hero old_buffer)) ! 1525 = 0x11"
proof -
  obtain h' r where p: "patch example_plugins edited_hero old_buffer = (h', r)"
    by (cases "patch example_plugins edited_hero old_buffer")
  have sp: "fst (span edited_hero) \<le> snd (span edited_hero)"
    "snd (span edited_hero) \<le> length (raw old_buffer)"
    by (simp_all add: edited_hero_def old_buffer_def)
  from patch_keeps_outside [OF p sp]
  have len: "length (buffer_after old_buffer r) = 2000"
    and out: "\<forall>i<2000. i < 500 \<or> 1525 \<le> i \<longrightarrow> buffer_after old_buffer r ! i = replicate 2000 0x11 ! i"
    by (simp_all add: edited_hero_def old_buffer_def)
  from out have "buffer_after old_buffer r ! 499 = 0x11" "buffer_after old_buffer r ! 1525 = 0x11"
    by simp_all
  moreover have "r = Inr \<lparr>raw = replicate 500 0x11 @ replicate 1025 0x33 @ replicate 475 0x11, version = None\<rparr>"
    using p by (simp add: patch_def serialize_all_def example_plugins_def edited_hero_def
        old_buffer_def Savefile_patch_def)
  ultimately show ?thesis
    using p len by simp
qed

subsection \<open>Deriving the base statistics\<close>

text \<open>
  C6. For a hero with an \<open>artifacts\<close> attribute whose cache is empty or cleared by the
  call, with a displayed value for each primary attribute, and a table whose entries for
  the equipped artifacts have one bonus per primary attribute, \<open>ensure_basestats\<close> stores
  for each primary attribute the displayed value minus the sum of that attribute's bonuses
  over the equipped artifacts that have an entry in the table.
\<close>

theorem ensure_basestats_derives:
  assumes arts: "artifacts h = Some arts"
    and cache: "clear \<or> basestats h = []"
    and st: "stats h = Some st"
    and dist: "distinct PA"
    and keys: "\<forall>k\<in>set PA. k \<in> dom (map_of st)"
    and table: "\<forall>item\<in>set (map snd arts). \<forall>b. STATS_get STATS item = Some b \<longrightarrow> length b = length PA"
  shows "\<exists>bs. ensure_basestats STATS PA clear h = Inr (h\<lparr>basestats := bs\<rparr>)
           \<and> (\<forall>i<length PA. \<exists>x. map_of st (PA ! i) = Some x
                 \<and> map_of bs (PA ! i) = Some (x - bonus_sum STATS (map snd arts) i))"
proof -
  let ?h1 = "if clear then h\<lparr>basestats := []\<rparr> else h"
  let ?items = "map snd arts"
  let ?F = "filter (\<lambda>item. truthy_bonus (STATS_get STATS item)) ?items"
  let ?n = "length PA"
  have h1: "basestats ?h1 = []" "artifacts ?h1 = Some arts" "stats ?h1 = Some st"
    using arts cache st by auto
  have upd: "?h1\<lparr>basestats := bs\<rparr> = h\<lparr>basestats := bs\<rparr>" for bs
    by simp
  have "\<forall>item\<in>set ?F. \<exists>b. STATS_get STATS item = Some b \<and> length b = length (replicate ?n (0::int))"
    using table by (auto simp: truthy_bonus_def split: option.splits)
  from sum_diff_total [OF this]
  obtain d where d: "sum_diff STATS ?F (replicate ?n 0) = Inr d" "length d = ?n"
    "\<forall>i<?n. d ! i = bonus_sum STATS ?F i"
    by auto
  have sums: "bonus_sum STATS ?F i = bonus_sum STATS ?items i" if "i < ?n" for i
  proof (rule bonus_sum_truthy)
    show "\<forall>item\<in>set ?items. \<forall>b. STATS_get STATS item = Some b \<longrightarrow> b \<noteq> []"
      using table that by fastforce
  qed
  have keys_zip: "map fst (zip PA d) = PA"
    using d(2) by (simp add: map_fst_zip)
  have "\<exists>bs. set_basestats (Some st) (zip PA d) [] = Inr bs
          \<and> (\<forall>k. map_of bs k = (case map_of (zip PA d) k of None \<Rightarrow> map_of [] k
                          | Some v \<Rightarrow> Some (the (map_of st k) - v)))"
    by (rule set_basestats_total) (use dist keys keys_zip in simp_all)
  then obtain bs where bs: "set_basestats (Some st) (zip PA d) [] = Inr bs"
    "\<forall>k. map_of bs k = (case map_of (zip PA d) k of None \<Rightarrow> map_of [] k
                          | Some v \<Rightarrow> Some (the (map_of st k) - v))"
    by blast
  have run: "ensure_basestats STATS PA clear h = Inr (h\<lparr>basestats := bs\<rparr>)"
    unfolding ensure_basestats_def Let_def using h1 d(1) bs(1) upd by simp
  have vals: "\<exists>x. map_of st (PA ! i) = Some x
                 \<and> map_of bs (PA ! i) = Some (x - bonus_sum STATS ?items i)" if i: "i < ?n" for i
  proof -
    from keys i obtain x where x: "map_of st (PA ! i) = Some x"
      by (meson domD nth_mem)
    have "map_of (zip PA d) (PA ! i) = Some (d ! i)"
      using dist d(2) i by (simp add: map_of_zip_nth)
    with bs(2) x have "map_of bs (PA ! i) = Some (x - d ! i)"
      by simp
    with x d(3) sums [OF i] i show ?thesis by simp
  qed
  from run vals show ?thesis by blast
qed

text \<open>
  An attack of 10 with an artifact that grants +3 gives a base attack of 7; after the
  artifact is removed and the cache cleared, it gives 10.
\<close>

theorem ensure_basestats_derives_witness:
  "ensure_basestats STATS0 PA0 False hero0
     = Inr (hero0\<lparr>basestats := [(''attack'', 7), (''defense'', 4), (''power'', 1), (''knowledge'', 2)]\<rparr>)
   \<and> (\<exists>h'. ensure_basestats STATS0 PA0 True
              (hero0\<lparr>basestats := [(''attack'', 7), (''defense'', 4), (''power'', 1), (''knowledge'', 2)],
                     artifacts := Some [(''helm'', None), (''weapon'', None)]\<rparr>)
            = Inr h' \<and> map_of (basestats h') ''attack'' = Some 10)"
proof -
  let ?cache = "[(''attack'', 7), (''defense'', 4), (''power'', 1), (''knowledge'', 2)] :: (string \<times> int) list"
  let ?st = "[(''attack'', 10), (''defense'', 4), (''power'', 1), (''knowledge'', 2)] :: (string \<times> int) list"
  let ?bare = "[(''helm'', None), (''weapon'', None)] :: (string \<times> string option) list"
  let ?h = "hero0\<lparr>basestats := ?cache, artifacts := Some ?bare\<rparr>"
  have dist: "distinct PA0"
    by (simp add: PA0_def)
  have keys: "\<forall>k\<in>set PA0. k \<in> dom (map_of ?st)"
    by (simp add: PA0_def)
  have st: "stats ?h = Some ?st"
    by (simp add: hero0_def)
  have bare: "artifacts ?h = Some ?bare"
    by (simp add: hero0_def)
  have clear: "True \<or> basestats ?h = []"
    by simp
  have table: "\<forall>item\<in>set (map snd ?bare). \<forall>b. STATS_get STATS0 item = Some b \<longrightarrow> length b = length PA0"
    by (simp add: STATS_get_def)
  have run1: "ensure_basestats STATS0 PA0 False hero0 = Inr (hero0\<lparr>basestats := ?cache\<rparr>)"
    by (simp add: ensure_basestats_def STATS0_def PA0_def hero0_def STATS_get_def
        truthy_bonus_def add_bonus_def)
  from ensure_basestats_derives [OF bare clear st dist keys table]
  obtain bs where bs: "ensure_basestats STATS0 PA0 True ?h = Inr (?h\<lparr>basestats := bs\<rparr>)"
    and vals: "\<forall>i<length PA0. \<exists>x. map_of ?st (PA0 ! i) = Some x
                 \<and> map_of bs (PA0 ! i) = Some (x - bonus_sum STATS0 (map snd ?bare) i)"
    by blast
  have "0 < length PA0"
    by (simp add: PA0_def)
  with vals have "\<exists>x. map_of ?st (PA0 ! 0) = Some x
                 \<and> map_of bs (PA0 ! 0) = Some (x - bonus_sum STATS0 (map snd ?bare) 0)"
    by blast
  then have "map_of bs ''attack'' = Some 10"
    by (simp add: PA0_def bonus_sum_def STATS_get_def)
  with run1 bs show ?thesis
    by simp
qed

subsection \<open>The order of the hero list\<close>

text \<open>
  C7. The hero list of every result of \<open>parse\<close> is sorted in ascending order of the
  lower-cased hero name; and \<open>parse\<close> does return such a result when the patterns of the
  versions are search functions of regular expressions that do not match the empty byte
  string.
\<close>

theorem parse_heroes_sorted:
  "(parse E d self = Some (Inr out) \<longrightarrow>
      sorted (map (\<lambda>x. str_lower E (name x)) (heroes out)))
   \<and> ((\<forall>ver. wf_regex (adapt_regex E ver RGX_HERO) \<and> adapt_regex E ver RGX_HERO [] = None) \<longrightarrow>
        (\<exists>res. parse E d self = Some (Inr res)
               \<and> sorted (map (\<lambda>x. str_lower E (name x)) (heroes res))))"
proof -
  have ordered: "sorted (map (\<lambda>x. str_lower E (name x)) (heroes res))"
    if "parse E d self = Some (Inr res)" for res
    using parse_Inr [OF that] by auto
  with parse_returns [of E d self] show ?thesis
    by blast
qed

text \<open>
  The heroes \<open>Zed\<close> and \<open>adam\<close>, found in this order, are listed as \<open>adam\<close>, \<open>Zed\<close>.
\<close>

theorem parse_heroes_sorted_witness:
  "parse E_plain True (plugin_on two_heroes) =
     Some (Inr \<lparr>savefile = \<lparr>raw = two_heroes, version = Some ''version2''\<rparr>,
                heroes = [hero_adam, hero_Zed], status = []\<rparr>)
   \<and> sorted (map (\<lambda>x. ascii_lower (name x)) [hero_adam, hero_Zed])"
proof -
  let ?res = "\<lparr>savefile = \<lparr>raw = two_heroes, version = Some ''version2''\<rparr>,
               heroes = [hero_adam, hero_Zed], status = []\<rparr>"
  from parse_heroes_sorted [of E_plain True "plugin_on two_heroes" ?res] parse_two_heroes
  have "sorted (map (\<lambda>x. str_lower E_plain (name x)) (heroes ?res))"
    by blast
  with parse_two_heroes show ?thesis
    by simp
qed

subsection \<open>No hero in the first 10000 bytes\<close>

text \<open>
  C8. Every hero that a pass from offset 10000 finds, and every hero in the list that
  \<open>parse\<close> returns, has a span that starts at offset 10000 or later.
\<close>

theorem heroes_start_after_header:
  "(scan U RGX buf 10000 [] = Some found \<longrightarrow> (\<forall>h\<in>set found. 10000 \<le> fst (span h)))
   \<and> (parse E d self = Some (Inr out) \<longrightarrow> (\<forall>h\<in>set (heroes out). 10000 \<le> fst (span h)))"
proof (intro conjI impI)
  assume "scan U RGX buf 10000 [] = Some found"
  from scan_lower_bound [OF this, of 10000] show "\<forall>h\<in>set found. 10000 \<le> fst (span h)"
    by simp
next
  assume p: "parse E d self = Some (Inr out)"
  let ?P = "\<lambda>l :: hero list. \<forall>h\<in>set l. 10000 \<le> fst (span h)"
  from parse_Inr [OF p] show "\<forall>h\<in>set (heroes out). 10000 \<le> fst (span h)"
  proof
    assume "heroes out = []"
    then show ?thesis by simp
  next
    assume "\<exists>vr ver found. versions_loop E (raw (savefile self))
               (candidate_versions E d (version (savefile self))) [] = Some vr
             \<and> map_of vr ver = Some found
             \<and> heroes out = sort_key (\<lambda>x. str_lower E (name x)) found"
    then obtain vr ver l where vr: "versions_loop E (raw (savefile self))
               (candidate_versions E d (version (savefile self))) [] = Some vr"
      and l: "map_of vr ver = Some l" "heroes out = sort_key (\<lambda>x. str_lower E (name x)) l"
      by blast
    have "(\<forall>k l. (k, l) \<in> set vr \<longrightarrow> ?P l)
          \<and> fst ` set vr = fst ` set ([] :: (version_key \<times> hero list) list) \<union> set (candidate_versions E d (version (savefile self)))"
    proof (rule versions_loop_invariant [OF vr, where P = ?P])
      fix R l l' assume "?P l" "scan (to_unicode E) R (raw (savefile self)) 10000 l = Some l'"
      then show "?P l'" using scan_lower_bound [of "to_unicode E" R _ 10000 l l' 10000] by simp
    qed simp_all
    with map_of_SomeD [OF l(1)] have "?P l" by blast
    with l(2) show ?thesis by simp
  qed
qed

text \<open>
  The two heroes of the example buffer start at 10000 and 11025.
\<close>

theorem heroes_start_after_header_witness:
  "scan latin1 RGX_HERO two_heroes 10000 [] = Some [hero_Zed, hero_adam]
   \<and> 10000 \<le> fst (span hero_Zed) \<and> 10000 \<le> fst (span hero_adam)"
  using heroes_start_after_header [of latin1 RGX_HERO two_heroes "[hero_Zed, hero_adam]"]
    scan_two_heroes by simp

subsection \<open>Hero identity\<close>

text \<open>
  C9. A hero equals another object exactly when that object is a hero with the same
  (name, place) pair: two heroes with the same name and place are equal whatever their
  bytes, and a hero with the same name at another place is a different hero.
\<close>

theorem Hero_eq_name_place:
  "Hero_eq h other = (\<exists>h'. other = HeroObj h' \<and> (name h, place h) = (name h', place h'))
   \<and> Hero_eq h (HeroObj (h\<lparr>bytes := bs\<rparr>))
   \<and> Hero_eq h (HeroObj (h\<lparr>place := p\<rparr>)) = (p = place h)"
  by (cases other) (auto simp: Hero_eq_def)

subsection \<open>The cache of base statistics\<close>

text \<open>
  C10. With a non-empty cache, \<open>ensure_basestats\<close> without \<open>clear\<close> returns the hero as
  it is, whatever its statistics and artifacts are by now; and a hero without an
  \<open>artifacts\<close> attribute and with an empty cache is returned as it is. For a hero
  without that attribute nothing is ever computed: the cache is emptied by \<open>clear\<close> and
  otherwise left alone.
\<close>

theorem ensure_basestats_keeps_cache:
  "(basestats h \<noteq> [] \<longrightarrow> ensure_basestats STATS PA False h = Inr h)
   \<and> (artifacts h = None \<and> basestats h = [] \<longrightarrow> ensure_basestats STATS PA clear h = Inr h)
   \<and> (artifacts h = None \<longrightarrow>
        ensure_basestats STATS PA clear h = Inr (if clear then h\<lparr>basestats := []\<rparr> else h))"
  by (simp add: ensure_basestats_def)

text \<open>
  A stale cache is kept, and so is the empty cache of a hero without artifacts.
\<close>

theorem ensure_basestats_keeps_cache_witness:
  "ensure_basestats STATS0 PA0 False (hero0\<lparr>basestats := [(''attack'', 99)]\<rparr>)
     = Inr (hero0\<lparr>basestats := [(''attack'', 99)]\<rparr>)
   \<and> ensure_basestats STATS0 PA0 True (hero0\<lparr>artifacts := None\<rparr>)
     = Inr (hero0\<lparr>artifacts := None\<rparr>)"
proof -
  have stale: "basestats (hero0\<lparr>basestats := [(''attack'', 99)]\<rparr>) \<noteq> []"
    by simp
  have bare: "artifacts (hero0\<lparr>artifacts := None\<rparr>) = None \<and> basestats (hero0\<lparr>artifacts := None\<rparr>) = []"
    by (simp add: hero0_def)
  from stale bare show ?thesis
    using ensure_basestats_keeps_cache [of "hero0\<lparr>basestats := [(''attack'', 99)]\<rparr>" STATS0 PA0]
      ensure_basestats_keeps_cache [of "hero0\<lparr>artifacts := None\<rparr>" STATS0 PA0 True]
    by blast
qed

end
